theory Spec2Isabelle
  imports Complex_Main "HOL-Library.Word" "HOL-Library.Sublist"
begin

section \<open>Floating-point values and arithmetic\<close>

text \<open>
  The decoder computes in C++ \<open>float\<close> (IEEE-754 binary32) and, inside
  \<open>std::accumulate\<close>, in \<open>double\<close> (binary64). A value of either type is a NaN, an
  infinity or a finite real; the two formats differ in the rounding applied after every
  operation. The two zeros are identified (no operation of the decoder divides by zero
  or otherwise observes the sign of a zero), and the default rounding mode, to nearest
  with ties to even, is assumed.
\<close>

datatype fpval = NaN | PInf | NInf | Fin real

text \<open>Nearest integer, ties to the even one.\<close>

definition rne :: "real \<Rightarrow> int" where
  "rne y = (let f = \<lfloor>y\<rfloor>; d = y - of_int f in
            if d < 1/2 then f else if 1/2 < d then f + 1
            else if even f then f else f + 1)"

text \<open>
  The exponent of the unit in the last place of \<open>x\<close> in a format with \<open>p\<close> bits of
  precision whose smallest subnormal is \<open>2 powi emin\<close>.
\<close>

definition ulp_exp :: "nat \<Rightarrow> int \<Rightarrow> real \<Rightarrow> int" where
  "ulp_exp p emin x = max (\<lfloor>log 2 \<bar>x\<bar>\<rfloor> - (int p - 1)) emin"

definition round_real :: "nat \<Rightarrow> int \<Rightarrow> real \<Rightarrow> real" where
  "round_real p emin x =
     (if x = 0 then 0
      else of_int (rne (x / 2 powi ulp_exp p emin x)) * 2 powi ulp_exp p emin x)"

text \<open>
  Rounding a real result into a format: to nearest as if the exponent were unbounded,
  then to an infinity when the rounded magnitude reaches \<open>2 powi emax\<close>.
\<close>

definition fround :: "nat \<Rightarrow> int \<Rightarrow> int \<Rightarrow> real \<Rightarrow> fpval" where
  "fround p emin emax x =
     (let y = round_real p emin x in
      if 2 powi emax \<le> y then PInf
      else if y \<le> - (2 powi emax) then NInf
      else Fin y)"

definition rnd32 :: "real \<Rightarrow> fpval" where
  "rnd32 = fround 24 (-149) 128"

definition rnd64 :: "real \<Rightarrow> fpval" where
  "rnd64 = fround 53 (-1074) 1024"

text \<open>The finite values of a format (the exponent's upper bound is checked by \<open>fround\<close>).\<close>

definition representable :: "nat \<Rightarrow> int \<Rightarrow> real \<Rightarrow> bool" where
  "representable p emin r \<longleftrightarrow>
     (\<exists>m e. r = of_int m * 2 powi e \<and> \<bar>m\<bar> < 2 ^ p \<and> emin \<le> e)"

definition is_float32 :: "fpval \<Rightarrow> bool" where
  "is_float32 v = (case v of Fin r \<Rightarrow> representable 24 (-149) r \<and> \<bar>r\<bar> < 2 powi 128
                   | _ \<Rightarrow> True)"

fun is_finite :: "fpval \<Rightarrow> bool" where
  "is_finite (Fin r) = True"
| "is_finite _ = False"

fun is_negative :: "fpval \<Rightarrow> bool" where
  "is_negative NInf = True"
| "is_negative (Fin a) = (a < 0)"
| "is_negative _ = False"

fun fneg :: "fpval \<Rightarrow> fpval" where
  "fneg NaN = NaN"
| "fneg PInf = NInf"
| "fneg NInf = PInf"
| "fneg (Fin a) = Fin (- a)"

fun fl_add :: "(real \<Rightarrow> fpval) \<Rightarrow> fpval \<Rightarrow> fpval \<Rightarrow> fpval" where
  "fl_add rnd (Fin a) (Fin b) = rnd (a + b)"
| "fl_add rnd NaN _ = NaN"
| "fl_add rnd _ NaN = NaN"
| "fl_add rnd PInf NInf = NaN"
| "fl_add rnd NInf PInf = NaN"
| "fl_add rnd PInf _ = PInf"
| "fl_add rnd _ PInf = PInf"
| "fl_add rnd NInf _ = NInf"
| "fl_add rnd _ NInf = NInf"

fun fl_mul :: "(real \<Rightarrow> fpval) \<Rightarrow> fpval \<Rightarrow> fpval \<Rightarrow> fpval" where
  "fl_mul rnd (Fin a) (Fin b) = rnd (a * b)"
| "fl_mul rnd NaN _ = NaN"
| "fl_mul rnd _ NaN = NaN"
| "fl_mul rnd a b =
     (if a = Fin 0 \<or> b = Fin 0 then NaN
      else if is_negative a = is_negative b then PInf else NInf)"

fun fl_div :: "(real \<Rightarrow> fpval) \<Rightarrow> fpval \<Rightarrow> fpval \<Rightarrow> fpval" where
  "fl_div rnd (Fin a) (Fin b) =
     (if b = 0 then (if a = 0 then NaN else if 0 < a then PInf else NInf)
      else rnd (a / b))"
| "fl_div rnd NaN _ = NaN"
| "fl_div rnd _ NaN = NaN"
| "fl_div rnd (Fin a) _ = Fin 0"
| "fl_div rnd a (Fin b) = (if is_negative a = (b < 0) then PInf else NInf)"
| "fl_div rnd _ _ = NaN"

text \<open>The comparison \<open><\<close>: false as soon as one side is a NaN.\<close>

fun flt :: "fpval \<Rightarrow> fpval \<Rightarrow> bool" where
  "flt (Fin a) (Fin b) = (a < b)"
| "flt NaN _ = False"
| "flt _ NaN = False"
| "flt NInf NInf = False"
| "flt NInf _ = True"
| "flt _ NInf = False"
| "flt PInf _ = False"
| "flt _ PInf = True"

text \<open>The comparison \<open><=\<close>, used to state properties (the decoder itself only uses \<open><\<close>).\<close>

fun fle :: "fpval \<Rightarrow> fpval \<Rightarrow> bool" where
  "fle (Fin a) (Fin b) = (a \<le> b)"
| "fle NaN _ = False"
| "fle _ NaN = False"
| "fle NInf _ = True"
| "fle _ PInf = True"
| "fle _ _ = False"

definition fadd :: "fpval \<Rightarrow> fpval \<Rightarrow> fpval" where
  "fadd = fl_add rnd32"

definition fsub :: "fpval \<Rightarrow> fpval \<Rightarrow> fpval" where
  "fsub a b = fl_add rnd32 a (fneg b)"

definition fmul :: "fpval \<Rightarrow> fpval \<Rightarrow> fpval" where
  "fmul = fl_mul rnd32"

definition fdiv :: "fpval \<Rightarrow> fpval \<Rightarrow> fpval" where
  "fdiv = fl_div rnd32"

definition dadd :: "fpval \<Rightarrow> fpval \<Rightarrow> fpval" where
  "dadd = fl_add rnd64"

text \<open>Conversions: \<open>float\<close> to \<open>double\<close> (exact on binary32 values) and back (rounding).\<close>

fun f2d :: "fpval \<Rightarrow> fpval" where
  "f2d (Fin a) = rnd64 a"
| "f2d v = v"

fun d2f :: "fpval \<Rightarrow> fpval" where
  "d2f (Fin a) = rnd32 a"
| "d2f v = v"

text \<open>\<open>(float) n\<close> for a loop counter or channel number \<open>n\<close>.\<close>

definition i2f :: "nat \<Rightarrow> fpval" where
  "i2f n = rnd32 (real n)"

text \<open>
  The implicit conversion of a \<open>float\<close> to \<open>int\<close> truncates towards zero. Outside the
  range of \<open>int\<close> C++ leaves the result undefined; the value taken here is the one the
  x86 conversion instruction delivers.
\<close>

fun f2i :: "fpval \<Rightarrow> 32 word" where
  "f2i (Fin a) =
     (let t = (if 0 \<le> a then \<lfloor>a\<rfloor> else \<lceil>a\<rceil>) in
      if - (2 ^ 31) \<le> t \<and> t < 2 ^ 31 then word_of_int t else word_of_int (- (2 ^ 31)))"
| "f2i _ = word_of_int (- (2 ^ 31))"

text \<open>
  \<open>std::exp\<close> on a \<open>float\<close>, taken as the correctly rounded exponential. (The C library
  promises an error below one unit in the last place; the results below use the value
  at \<open>0\<close>, the sign and monotonicity of the result, and overflow and underflow far from
  their thresholds, none of which depends on the last bit.)
\<close>

fun expf :: "fpval \<Rightarrow> fpval" where
  "expf (Fin a) = rnd32 (exp a)"
| "expf NaN = NaN"
| "expf PInf = PInf"
| "expf NInf = Fin 0"

section \<open>The program: \<open>yolo_processor.cpp\<close>\<close>

definition ROW_COUNT :: nat where "ROW_COUNT = 13"
definition COL_COUNT :: nat where "COL_COUNT = 13"
definition CHANNEL_COUNT :: nat where "CHANNEL_COUNT = 125"
definition BOXES_PER_CELL :: nat where "BOXES_PER_CELL = 5"
definition BOX_INFO_FEATURE_COUNT :: nat where "BOX_INFO_FEATURE_COUNT = 5"
definition CLASS_COUNT :: nat where "CLASS_COUNT = 20"
definition CELL_WIDTH :: fpval where "CELL_WIDTH = Fin 32"
definition CELL_HEIGHT :: fpval where "CELL_HEIGHT = Fin 32"

definition labels :: "string list" where
  "labels =
     [''aeroplane'', ''bicycle'', ''bird'', ''boat'', ''bottle'',
      ''bus'', ''car'', ''cat'', ''chair'', ''cow'',
      ''diningtable'', ''dog'', ''horse'', ''motorbike'', ''person'',
      ''pottedplant'', ''sheep'', ''sofa'', ''train'', ''tvmonitor'']"

text \<open>The anchor table: each literal such as \<open>1.08f\<close> is the binary32 value nearest to it.\<close>

definition anchors :: "fpval list" where
  "anchors = map rnd32 [1.08, 1.19, 3.42, 4.41, 6.63, 11.38, 9.42, 5.11, 16.62, 10.52]"

text \<open>
  \<open>YoloBox\<close> is declared in a header outside the sources at hand; its fields are taken
  from the aggregate initialisation in \<open>GetRecognizedObjects\<close> and from their uses in
  \<open>ProcessOutput\<close> (\<open>label\<close>, \<open>x\<close>, \<open>y\<close>, \<open>width\<close>, \<open>height\<close> and the score), with
  a prefix that keeps \<open>x\<close> and \<open>y\<close> free for variables.
\<close>

record YoloBox =
  box_label :: string
  box_x :: fpval
  box_y :: fpval
  box_width :: fpval
  box_height :: fpval
  box_confidence :: fpval

text \<open>
  The only way the decoder can go wrong: an unchecked read (\<open>operator[]\<close> of
  \<open>std::vector\<close> or of an array, or dereferencing \<open>end()\<close>) outside the container, which
  C++ leaves undefined.
\<close>

datatype error = OutOfBounds

definition ebind :: "error + 'a \<Rightarrow> ('a \<Rightarrow> error + 'b) \<Rightarrow> error + 'b" where
  "ebind m f = (case m of Inl e \<Rightarrow> Inl e | Inr v \<Rightarrow> f v)"

text \<open>\<open>v[i]\<close> for an \<open>int\<close> index: a negative \<open>i\<close> converts to a huge \<open>size_t\<close>.\<close>

definition vec_read :: "'a list \<Rightarrow> 32 word \<Rightarrow> error + 'a" where
  "vec_read v i =
     (if 0 \<le> sint i \<and> nat (sint i) < length v then Inr (v ! nat (sint i))
      else Inl OutOfBounds)"

definition arr_read :: "'a list \<Rightarrow> nat \<Rightarrow> error + 'a" where
  "arr_read v i = (if i < length v then Inr (v ! i) else Inl OutOfBounds)"

text \<open>
  \<open>GetOffset\<close> computes in \<open>int\<close>; the arithmetic is that of 32-bit two's complement
  words. There is no range check and no failure path.
\<close>

definition GetOffset :: "32 word \<Rightarrow> 32 word \<Rightarrow> 32 word \<Rightarrow> 32 word" where
  "GetOffset x y channel =
     (let channelStride = of_nat (ROW_COUNT * COL_COUNT) in
      (channel * channelStride) + (y * of_nat COL_COUNT) + x)"

definition Sigmoid :: "fpval \<Rightarrow> fpval" where
  "Sigmoid v = (let k = expf v in fdiv k (fadd (Fin 1) k))"

text \<open>
  \<open>std::max_element\<close>: the position of the first element that no later element
  exceeds; the scan keeps its candidate unless \<open>candidate < element\<close>. On an empty range
  it returns \<open>end()\<close>, here position 0 of a list without positions.
\<close>

fun max_loop :: "fpval list \<Rightarrow> nat \<Rightarrow> nat \<Rightarrow> fpval \<Rightarrow> nat" where
  "max_loop [] i largest lv = largest"
| "max_loop (v # vs) i largest lv =
     (if flt lv v then max_loop vs (i + 1) i v else max_loop vs (i + 1) largest lv)"

definition max_element :: "fpval list \<Rightarrow> nat" where
  "max_element vs = (case vs of [] \<Rightarrow> 0 | v # rest \<Rightarrow> max_loop rest 1 0 v)"

text \<open>
  \<open>Softmax\<close> rewrites its vector in place; the model returns the new contents. The sum
  is accumulated in \<open>double\<close> (the initial value is the literal \<open>0.0\<close>) and stored into a
  \<open>float\<close>.
\<close>

definition Softmax :: "fpval list \<Rightarrow> error + fpval list" where
  "Softmax values =
     ebind (arr_read values (max_element values)) (\<lambda>max_val.
       let values1 = map (\<lambda>x. expf (fsub x max_val)) values;
           exptot = d2f (foldl (\<lambda>acc x. dadd acc (f2d x)) (Fin 0) values1)
       in Inr (map (\<lambda>x. fdiv x exptot) values1))"

text \<open>
  The loop that copies the class logits of one anchor. \<open>classOffset\<close> is a \<open>float\<close> in
  the source, so the channel number \<open>i + classOffset\<close> is computed in \<open>float\<close> and
  converted back to \<open>int\<close> at the call of \<open>GetOffset\<close>.
\<close>

function read_classes ::
  "fpval list \<Rightarrow> nat \<Rightarrow> nat \<Rightarrow> fpval \<Rightarrow> nat \<Rightarrow> fpval list \<Rightarrow> error + fpval list" where
  "read_classes modelOutputs cx cy classOffset i classes =
     (if i < CLASS_COUNT then
        ebind (vec_read modelOutputs
                 (GetOffset (of_nat cx) (of_nat cy) (f2i (fadd (i2f i) classOffset))))
          (\<lambda>v. read_classes modelOutputs cx cy classOffset (i + 1) (classes[i := v]))
      else Inr classes)"
  by pat_completeness auto
termination
  by (relation "measure (\<lambda>(m, cx, cy, off, i, cl). CLASS_COUNT - i)") auto

declare read_classes.simps [simp del]

text \<open>The body of the innermost loop: \<open>None\<close> is a \<open>continue\<close>, \<open>Some\<close> a \<open>push_back\<close>.\<close>

definition anchor_box ::
  "fpval list \<Rightarrow> fpval \<Rightarrow> nat \<Rightarrow> nat \<Rightarrow> nat \<Rightarrow> error + YoloBox option" where
  "anchor_box modelOutputs threshold cy cx b =
     (let channel = b * (CLASS_COUNT + BOX_INFO_FEATURE_COUNT);
          rd = (\<lambda>c. vec_read modelOutputs (GetOffset (of_nat cx) (of_nat cy) (of_nat c)))
      in
      ebind (rd channel) (\<lambda>tx.
      ebind (rd (channel + 1)) (\<lambda>ty.
      ebind (rd (channel + 2)) (\<lambda>tw.
      ebind (rd (channel + 3)) (\<lambda>th.
      ebind (rd (channel + 4)) (\<lambda>tc.
      ebind (arr_read anchors (b * 2)) (\<lambda>aw.
      ebind (arr_read anchors (b * 2 + 1)) (\<lambda>ah.
        let bx = fmul (fadd (i2f cx) (Sigmoid tx)) CELL_WIDTH;
            by = fmul (fadd (i2f cy) (Sigmoid ty)) CELL_HEIGHT;
            bw = fmul (fmul (expf tw) CELL_WIDTH) aw;
            bh = fmul (fmul (expf th) CELL_HEIGHT) ah;
            conf = Sigmoid tc
        in
        if flt conf threshold then Inr None
        else
          let classOffset = i2f (channel + BOX_INFO_FEATURE_COUNT) in
          ebind (read_classes modelOutputs cx cy classOffset 0
                   (replicate CLASS_COUNT (Fin 0))) (\<lambda>classes0.
          ebind (Softmax classes0) (\<lambda>classes.
            let iter = max_element classes in
            ebind (arr_read classes iter) (\<lambda>top.
              let topScore = fmul top conf;
                  topClass = iter
              in
              if flt topScore threshold then Inr None
              else
                ebind (arr_read labels topClass) (\<lambda>lab.
                  Inr (Some \<lparr> box_label = lab,
                              box_x = fsub bx (fdiv bw (Fin 2)),
                              box_y = fsub by (fdiv bh (Fin 2)),
                              box_width = bw,
                              box_height = bh,
                              box_confidence = topScore \<rparr>)))))))))))))"

function loop_b ::
  "fpval list \<Rightarrow> fpval \<Rightarrow> nat \<Rightarrow> nat \<Rightarrow> nat \<Rightarrow> YoloBox list \<Rightarrow> error + YoloBox list" where
  "loop_b modelOutputs threshold cy cx b boxes =
     (if b < BOXES_PER_CELL then
        (case anchor_box modelOutputs threshold cy cx b of
           Inl e \<Rightarrow> Inl e
         | Inr None \<Rightarrow> loop_b modelOutputs threshold cy cx (b + 1) boxes
         | Inr (Some top_box) \<Rightarrow>
             loop_b modelOutputs threshold cy cx (b + 1) (boxes @ [top_box]))
      else Inr boxes)"
  by pat_completeness auto
termination
  by (relation "measure (\<lambda>(m, t, cy, cx, b, bs). BOXES_PER_CELL - b)") auto

declare loop_b.simps [simp del]

function loop_cx ::
  "fpval list \<Rightarrow> fpval \<Rightarrow> nat \<Rightarrow> nat \<Rightarrow> YoloBox list \<Rightarrow> error + YoloBox list" where
  "loop_cx modelOutputs threshold cy cx boxes =
     (if cx < COL_COUNT then
        (case loop_b modelOutputs threshold cy cx 0 boxes of
           Inl e \<Rightarrow> Inl e
         | Inr boxes' \<Rightarrow> loop_cx modelOutputs threshold cy (cx + 1) boxes')
      else Inr boxes)"
  by pat_completeness auto
termination
  by (relation "measure (\<lambda>(m, t, cy, cx, bs). COL_COUNT - cx)") auto

declare loop_cx.simps [simp del]

function loop_cy ::
  "fpval list \<Rightarrow> fpval \<Rightarrow> nat \<Rightarrow> YoloBox list \<Rightarrow> error + YoloBox list" where
  "loop_cy modelOutputs threshold cy boxes =
     (if cy < ROW_COUNT then
        (case loop_cx modelOutputs threshold cy 0 boxes of
           Inl e \<Rightarrow> Inl e
         | Inr boxes' \<Rightarrow> loop_cy modelOutputs threshold (cy + 1) boxes')
      else Inr boxes)"
  by pat_completeness auto
termination
  by (relation "measure (\<lambda>(m, t, cy, bs). ROW_COUNT - cy)") auto

declare loop_cy.simps [simp del]

definition GetRecognizedObjects :: "fpval list \<Rightarrow> fpval \<Rightarrow> error + YoloBox list" where
  "GetRecognizedObjects modelOutputs threshold = loop_cy modelOutputs threshold 0 []"

section \<open>The decoder as the specification describes it\<close>

text \<open>
  The definitions of this section follow the words of the specification (section 4.3),
  not the loops of the source; the theorems below compare the two.
\<close>

text \<open>The entry of the flat tensor for cell \<open>(cx, cy)\<close> and a channel, planar layout.\<close>

definition tensor_at :: "fpval list \<Rightarrow> nat \<Rightarrow> nat \<Rightarrow> nat \<Rightarrow> fpval" where
  "tensor_at t cx cy c = t ! (c * (ROW_COUNT * COL_COUNT) + cy * COL_COUNT + cx)"

definition tensor_length :: nat where
  "tensor_length = ROW_COUNT * COL_COUNT * CHANNEL_COUNT"

text \<open>The class distribution of a non-empty vector of logits.\<close>

definition softmax_dist :: "fpval list \<Rightarrow> fpval list" where
  "softmax_dist vs =
     (let m = vs ! max_element vs;
          es = map (\<lambda>v. expf (fsub v m)) vs;
          tot = d2f (foldl (\<lambda>acc v. dadd acc (f2d v)) (Fin 0) es)
      in map (\<lambda>v. fdiv v tot) es)"

definition class_logits :: "fpval list \<Rightarrow> nat \<Rightarrow> nat \<Rightarrow> nat \<Rightarrow> fpval list" where
  "class_logits t cx cy b =
     map (\<lambda>i. tensor_at t cx cy (b * (CLASS_COUNT + 5) + 5 + i)) [0..<CLASS_COUNT]"

text \<open>Step 2 of the specification: the geometry of anchor \<open>b\<close> in cell \<open>(cx, cy)\<close>.\<close>

definition spec_centerX :: "fpval list \<Rightarrow> nat \<Rightarrow> nat \<Rightarrow> nat \<Rightarrow> fpval" where
  "spec_centerX t cx cy b =
     fmul (fadd (i2f cx) (Sigmoid (tensor_at t cx cy (b * (CLASS_COUNT + 5))))) CELL_WIDTH"

definition spec_centerY :: "fpval list \<Rightarrow> nat \<Rightarrow> nat \<Rightarrow> nat \<Rightarrow> fpval" where
  "spec_centerY t cx cy b =
     fmul (fadd (i2f cy) (Sigmoid (tensor_at t cx cy (b * (CLASS_COUNT + 5) + 1)))) CELL_HEIGHT"

definition spec_width :: "fpval list \<Rightarrow> nat \<Rightarrow> nat \<Rightarrow> nat \<Rightarrow> fpval" where
  "spec_width t cx cy b =
     fmul (fmul (expf (tensor_at t cx cy (b * (CLASS_COUNT + 5) + 2))) CELL_WIDTH)
          (anchors ! (2 * b))"

definition spec_height :: "fpval list \<Rightarrow> nat \<Rightarrow> nat \<Rightarrow> nat \<Rightarrow> fpval" where
  "spec_height t cx cy b =
     fmul (fmul (expf (tensor_at t cx cy (b * (CLASS_COUNT + 5) + 3))) CELL_HEIGHT)
          (anchors ! (2 * b + 1))"

definition spec_objectness :: "fpval list \<Rightarrow> nat \<Rightarrow> nat \<Rightarrow> nat \<Rightarrow> fpval" where
  "spec_objectness t cx cy b = Sigmoid (tensor_at t cx cy (b * (CLASS_COUNT + 5) + 4))"

text \<open>
  Steps 3 to 6: the objectness filter, then the class distribution, its first maximal
  entry, the filter on the combined score, and the detection.
\<close>

definition spec_detection :: "fpval list \<Rightarrow> fpval \<Rightarrow> nat \<Rightarrow> nat \<Rightarrow> nat \<Rightarrow> YoloBox option" where
  "spec_detection t threshold cy cx b =
     (let objectness = spec_objectness t cx cy b in
      if flt objectness threshold then None
      else
        let distribution = softmax_dist (class_logits t cx cy b);
            topClass = max_element distribution;
            topScore = fmul (distribution ! topClass) objectness
        in
        if flt topScore threshold then None
        else Some \<lparr> box_label = labels ! topClass,
                    box_x = fsub (spec_centerX t cx cy b) (fdiv (spec_width t cx cy b) (Fin 2)),
                    box_y = fsub (spec_centerY t cx cy b) (fdiv (spec_height t cx cy b) (Fin 2)),
                    box_width = spec_width t cx cy b,
                    box_height = spec_height t cx cy b,
                    box_confidence = topScore \<rparr>)"

text \<open>The row-major scan: \<open>cy\<close> outermost, then \<open>cx\<close>, then the anchor.\<close>

definition scan_order :: "(nat \<times> nat \<times> nat) list" where
  "scan_order =
     concat (map (\<lambda>cy. concat (map (\<lambda>cx. map (\<lambda>b. (cy, cx, b)) [0..<BOXES_PER_CELL])
                                    [0..<COL_COUNT]))
                 [0..<ROW_COUNT])"

definition spec_decode :: "fpval list \<Rightarrow> fpval \<Rightarrow> YoloBox list" where
  "spec_decode t threshold =
     List.map_filter (\<lambda>(cy, cx, b). spec_detection t threshold cy cx b) scan_order"

text \<open>The detections of the rest of a cell, of a row and of the grid, in scan order.\<close>

definition cell_detections :: "fpval list \<Rightarrow> fpval \<Rightarrow> nat \<Rightarrow> nat \<Rightarrow> nat \<Rightarrow> YoloBox list" where
  "cell_detections t threshold cy cx b0 =
     List.map_filter (spec_detection t threshold cy cx) [b0..<BOXES_PER_CELL]"

definition row_detections :: "fpval list \<Rightarrow> fpval \<Rightarrow> nat \<Rightarrow> nat \<Rightarrow> YoloBox list" where
  "row_detections t threshold cy cx0 =
     concat (map (\<lambda>cx. cell_detections t threshold cy cx 0) [cx0..<COL_COUNT])"

definition grid_detections :: "fpval list \<Rightarrow> fpval \<Rightarrow> nat \<Rightarrow> YoloBox list" where
  "grid_detections t threshold cy0 =
     concat (map (\<lambda>cy. row_detections t threshold cy 0) [cy0..<ROW_COUNT])"

text \<open>Auxiliary predicates: a binary32 value between 0 and 1, and a lower bound on a sum.\<close>

definition unit_float :: "fpval \<Rightarrow> bool" where
  "unit_float v \<longleftrightarrow> (\<exists>s. v = Fin s \<and> 0 \<le> s \<and> s \<le> 1 \<and> representable 24 (-149) s)"

definition sum_ge :: "real \<Rightarrow> fpval \<Rightarrow> bool" where
  "sum_ge lo acc \<longleftrightarrow> acc = PInf \<or> (\<exists>a. acc = Fin a \<and> lo \<le> a)"

text \<open>
  The real number a finite value stands for (0 for a NaN or an infinity), to add up the
  entries of a distribution exactly.
\<close>

fun fval :: "fpval \<Rightarrow> real" where
  "fval (Fin r) = r"
| "fval _ = 0"


section \<open>Rounding to nearest\<close>

lemma rne_of_int: "rne (of_int n) = n"
  by (simp add: rne_def)

lemma rne_err: "\<bar>y - of_int (rne y)\<bar> \<le> 1/2"
  unfolding rne_def Let_def by (auto simp: abs_if; linarith)

lemma rne_floor_bounds: "\<lfloor>y\<rfloor> \<le> rne y \<and> rne y \<le> \<lfloor>y\<rfloor> + 1"
  unfolding rne_def Let_def by auto

lemma rne_mono: 
  assumes ab: "a \<le> b" shows "rne a \<le> rne b"
proof (cases "\<lfloor>a\<rfloor> = \<lfloor>b\<rfloor>")
  case True 
  then show ?thesis using ab unfolding rne_def Let_def by auto
next
  case False
  then have "\<lfloor>a\<rfloor> + 1 \<le> \<lfloor>b\<rfloor>" using floor_mono[OF ab] by linarith
  then show ?thesis using rne_floor_bounds[of a] rne_floor_bounds[of b] by linarith
qed

lemma floor_minus_nonint:
  fixes y :: real
  assumes "y \<notin> \<int>"
  shows "\<lfloor>- y\<rfloor> = - \<lfloor>y\<rfloor> - 1"
proof (rule floor_unique)
  have "of_int \<lfloor>y\<rfloor> \<noteq> y" using assms by (metis Ints_of_int)
  then have lt: "of_int \<lfloor>y\<rfloor> < y" using of_int_floor_le[of y] by linarith
  show "of_int (- \<lfloor>y\<rfloor> - 1) \<le> - y" using floor_correct[of y] by simp linarith
  show "- y < of_int (- \<lfloor>y\<rfloor> - 1) + 1" using lt by simp
qed

lemma rne_minus: "rne (- y) = - rne y"
proof (cases "y \<in> \<int>")
  case True
  then obtain n where "y = of_int n" by (auto elim: Ints_cases)
  then show ?thesis using rne_of_int[of n] rne_of_int[of "-n"] by simp
next
  case False
  have nz: "y - of_int \<lfloor>y\<rfloor> \<noteq> 0" using False by (metis Ints_of_int eq_iff_diff_eq_0)
  show ?thesis unfolding rne_def Let_def floor_minus_nonint[OF False] using nz by auto
qed

lemma p2_powr: "(2::real) powr (of_int k) = 2 powi k"
  by (simp add: powr_real_of_int')

lemma floor_log2_bounds:
  assumes "0 < (x::real)"
  shows "2 powi \<lfloor>log 2 x\<rfloor> \<le> x" "x < 2 powi (\<lfloor>log 2 x\<rfloor> + 1)"
proof -
  define k where "k = \<lfloor>log 2 x\<rfloor>"
  have "2 powr (of_int k) \<le> x \<and> x < 2 powr (of_int k + 1)"
    using floor_log_eq_powr_iff[of x 2 k] assms by (simp add: k_def)
  then have "2 powi k \<le> x \<and> x < 2 powi (k + 1)"
    using p2_powr[of k] p2_powr[of "k + 1"] by simp
  then show "2 powi \<lfloor>log 2 x\<rfloor> \<le> x" "x < 2 powi (\<lfloor>log 2 x\<rfloor> + 1)"
    by (simp_all add: k_def)
qed

lemma floor_log2_eq:
  assumes "0 < (x::real)" "2 powi k \<le> x" "x < 2 powi (k + 1)"
  shows "\<lfloor>log 2 x\<rfloor> = k"
  using assms floor_log_eq_powr_iff[of x 2 k] p2_powr[of k] p2_powr[of "k+1"]
  by simp

lemma p2_add: "(2::real) powi (a + b) = 2 powi a * 2 powi b"
  by (simp add: power_int_add)

lemma p2_diff: "(2::real) powi (a - b) = 2 powi a / 2 powi b"
  by (simp add: power_int_diff)

lemma p2_mono: "a \<le> b \<Longrightarrow> (2::real) powi a \<le> 2 powi b"
  by (simp add: power_int_increasing)

lemma p2_less: "a < b \<Longrightarrow> (2::real) powi a < 2 powi b"
  by (simp add: power_int_strict_increasing)

lemma p2_nat: "0 \<le> k \<Longrightarrow> (2::real) powi k = of_int (2 ^ nat k)"
  by (simp add: power_int_def)

lemma p2_less_cancel: "(2::real) powi a < 2 powi b \<Longrightarrow> a < b"
  using p2_mono[of b a] by (cases "a < b") auto

text \<open>Multiples of the quantum are fixed points of the integer rounding.\<close>

lemma round_multiple_lower:
  assumes "0 < q" "of_int j * q \<le> x"
  shows "of_int j * q \<le> of_int (rne (x / q)) * q"
proof -
  have "of_int j \<le> x / q" using assms by (simp add: pos_le_divide_eq)
  from rne_mono[OF this] have "j \<le> rne (x / q)" by (simp add: rne_of_int)
  then show ?thesis using assms(1) by simp
qed

lemma round_multiple_upper:
  assumes "0 < q" "x \<le> of_int j * q"
  shows "of_int (rne (x / q)) * q \<le> of_int j * q"
proof -
  have "x / q \<le> of_int j" using assms by (simp add: pos_divide_le_eq)
  from rne_mono[OF this] have "rne (x / q) \<le> j" by (simp add: rne_of_int)
  then show ?thesis using assms(1) by simp
qed

lemma p2_multiple:
  assumes "e \<le> e'"
  shows "of_int m * 2 powi e' = of_int (m * 2 ^ nat (e' - e)) * (2::real) powi e"
proof -
  have "(2::real) powi e' = 2 powi (e' - e) * 2 powi e"
    using p2_add[of "e' - e" e] by simp
  also have "(2::real) powi (e' - e) = of_int (2 ^ nat (e' - e))"
    using assms by (intro p2_nat) simp
  finally show ?thesis by simp
qed

lemma repr_below_binade:
  fixes r :: real
  assumes r: "r = of_int m * 2 powi e'" and m: "\<bar>m\<bar> < 2 ^ p" and lt: "int p + e' \<le> E"
  shows "r < 2 powi E"
proof -
  have "r \<le> \<bar>of_int m\<bar> * 2 powi e'" unfolding r by (simp add: mult_right_mono)
  also have "\<bar>real_of_int m\<bar> < 2 ^ p"
    using m by (metis of_int_abs of_int_less_numeral_power_cancel_iff)
  then have "\<bar>of_int m\<bar> * 2 powi e' < 2 ^ p * (2::real) powi e'"
    by (simp add: mult_strict_right_mono)
  also have "2 ^ p * (2::real) powi e' = 2 powi (int p + e')" by (simp add: p2_add)
  also have "\<dots> \<le> 2 powi E" using lt by (rule p2_mono)
  finally show ?thesis .
qed

lemma round_pos_lower:
  assumes x: "0 < x" and p: "0 < p" and rep: "representable p emin r" and rx: "r \<le> x"
  shows "r \<le> round_real p emin x"
proof -
  define E where "E = \<lfloor>log 2 x\<rfloor>"
  define e where "e = ulp_exp p emin x"
  define q where "q = (2::real) powi e"
  have q: "0 < q" by (simp add: q_def)
  have rr: "round_real p emin x = of_int (rne (x / q)) * q"
    using x by (simp add: round_real_def e_def q_def)
  have e_eq: "e = max (E - (int p - 1)) emin"
    using x by (simp add: e_def ulp_exp_def E_def)
  have Ex: "2 powi E \<le> x" using floor_log2_bounds(1)[OF x] by (simp add: E_def)
  obtain m e' where r: "r = of_int m * 2 powi e'" and m: "\<bar>m\<bar> < 2 ^ p" and e': "emin \<le> e'"
    using rep by (auto simp: representable_def)
  show ?thesis
  proof (cases "e \<le> e'")
    case True
    have "r = of_int (m * 2 ^ nat (e' - e)) * q"
      unfolding r q_def by (rule p2_multiple[OF True])
    then show ?thesis
      using round_multiple_lower[OF q, of "m * 2 ^ nat (e' - e)" x] rx rr by simp
  next
    case False
    with e' e_eq have ee: "e = E - (int p - 1)" and lt: "e' < e" by auto
    have rE: "r < 2 powi E"
      using r m by (rule repr_below_binade) (use ee lt in simp)
    have "e \<le> E" using ee p by simp
    from p2_multiple[OF this, of 1]
    have "2 powi E = of_int (2 ^ nat (E - e)) * q" by (simp add: q_def)
    with round_multiple_lower[OF q, of "2 ^ nat (E - e)" x] Ex rr
    have "2 powi E \<le> round_real p emin x" by simp
    with rE show ?thesis by simp
  qed
qed

lemma round_pos_upper:
  assumes x: "0 < x" and p: "0 < p" and rep: "representable p emin r" and rx: "x \<le> r"
  shows "round_real p emin x \<le> r"
proof -
  define E where "E = \<lfloor>log 2 x\<rfloor>"
  define e where "e = ulp_exp p emin x"
  define q where "q = (2::real) powi e"
  have q: "0 < q" by (simp add: q_def)
  have rr: "round_real p emin x = of_int (rne (x / q)) * q"
    using x by (simp add: round_real_def e_def q_def)
  have e_eq: "e = max (E - (int p - 1)) emin"
    using x by (simp add: e_def ulp_exp_def E_def)
  have Ex: "2 powi E \<le> x" using floor_log2_bounds(1)[OF x] by (simp add: E_def)
  obtain m e' where r: "r = of_int m * 2 powi e'" and m: "\<bar>m\<bar> < 2 ^ p" and e': "emin \<le> e'"
    using rep by (auto simp: representable_def)
  show ?thesis
  proof (cases "e \<le> e'")
    case True
    have "r = of_int (m * 2 ^ nat (e' - e)) * q"
      unfolding r q_def by (rule p2_multiple[OF True])
    then show ?thesis
      using round_multiple_upper[OF q, of x "m * 2 ^ nat (e' - e)"] rx rr by simp
  next
    case False
    with e' e_eq have ee: "e = E - (int p - 1)" and lt: "e' < e" by auto
    have rE: "r < 2 powi E"
      using r m by (rule repr_below_binade) (use ee lt in simp)
    with Ex rx show ?thesis by simp
  qed
qed

lemma representable_minus: "representable p emin (- r) = representable p emin r"
proof -
  have "representable p emin (- s)" if "representable p emin s" for s
  proof -
    from that obtain m e where "s = of_int m * 2 powi e" "\<bar>m\<bar> < 2 ^ p" "emin \<le> e"
      by (auto simp: representable_def)
    then have "- s = of_int (- m) * 2 powi e \<and> \<bar>- m\<bar> < 2 ^ p \<and> emin \<le> e" by simp
    then show ?thesis unfolding representable_def by blast
  qed
  from this[of r] this[of "- r"] show ?thesis by auto
qed

lemma ulp_exp_minus: "ulp_exp p emin (- x) = ulp_exp p emin x"
  by (simp add: ulp_exp_def)

lemma round_real_minus: "round_real p emin (- x) = - round_real p emin x"
  by (simp add: round_real_def ulp_exp_minus rne_minus)

lemma representable_0: "representable p emin 0"
  unfolding representable_def by (rule exI[of _ 0], rule exI[of _ emin]) simp

lemma round_lower:
  assumes p: "0 < p" and rep: "representable p emin r" and rx: "r \<le> x"
  shows "r \<le> round_real p emin x"
proof -
  consider "0 < x" | "x = 0" | "x < 0" by linarith
  then show ?thesis
  proof cases
    case 1 then show ?thesis using round_pos_lower[OF _ p rep rx] by simp
  next
    case 2 then show ?thesis using rx by (simp add: round_real_def)
  next
    case 3
    then have "0 < - x" "- x \<le> - r" using rx by auto
    from round_pos_upper[OF this(1) p _ this(2)] rep
    show ?thesis by (simp add: representable_minus round_real_minus)
  qed
qed

lemma round_upper:
  assumes p: "0 < p" and rep: "representable p emin r" and rx: "x \<le> r"
  shows "round_real p emin x \<le> r"
proof -
  have "- r \<le> round_real p emin (- x)"
    using rep rx by (intro round_lower[OF p]) (simp_all add: representable_minus)
  then show ?thesis by (simp add: round_real_minus)
qed

lemma round_exact:
  assumes "0 < p" "representable p emin r"
  shows "round_real p emin r = r"
  using round_lower[OF assms, of r] round_upper[OF assms, of r] by simp

section \<open>The tensor layout: \<open>GetOffset\<close>\<close>

lemma GetOffset_of_nat:
  "GetOffset (of_nat cx) (of_nat cy) (of_nat c) = of_nat (c * 169 + cy * 13 + cx)"
  by (simp add: GetOffset_def ROW_COUNT_def COL_COUNT_def)

lemma sint_of_nat_small:
  assumes "n < 2 ^ 31"
  shows "sint (of_nat n :: 32 word) = int n"
proof -
  have "(int n + 2 ^ 31) mod 2 ^ 32 = int n + 2 ^ 31"
    using assms by (intro mod_pos_pos_trivial) auto
  then show ?thesis
    using int_word_sint[of "int n", where 'a = 32] by simp
qed

text \<open>
  Claim C7, as the code has it. For a cell and channel inside the grid, \<open>GetOffset\<close>
  returns \<open>channel * (rows * cols) + cellY * cols + cellX\<close>, the channel-major index,
  without wrap-around. The grid is not configurable: \<open>rows\<close> and \<open>cols\<close> are the
  compile-time constants \<open>ROW_COUNT = COL_COUNT = 13\<close>, so \<open>offset(1, 1, 2)\<close> is
  \<open>2 * 169 + 1 * 13 + 1 = 352\<close>.
\<close>

theorem GetOffset_in_range:
  assumes "cellX < COL_COUNT" "cellY < ROW_COUNT" "channel < CHANNEL_COUNT"
  shows "sint (GetOffset (of_nat cellX) (of_nat cellY) (of_nat channel)) =
           int (channel * (ROW_COUNT * COL_COUNT) + cellY * COL_COUNT + cellX)
         \<and> sint (GetOffset 1 1 2) = 352"
proof -
  have "channel * 169 + cellY * 13 + cellX < 2 ^ 31"
    using assms by (simp add: ROW_COUNT_def COL_COUNT_def CHANNEL_COUNT_def)
  then have "sint (GetOffset (of_nat cellX) (of_nat cellY) (of_nat channel)) =
      int (channel * 169 + cellY * 13 + cellX)"
    unfolding GetOffset_of_nat by (rule sint_of_nat_small)
  moreover have "sint (GetOffset 1 1 2) = 352"
    by (simp add: GetOffset_def ROW_COUNT_def COL_COUNT_def)
  ultimately show ?thesis by (simp add: ROW_COUNT_def COL_COUNT_def)
qed

theorem GetOffset_in_range_witness:
  "(1::nat) < COL_COUNT \<and> (1::nat) < ROW_COUNT \<and> (2::nat) < CHANNEL_COUNT
   \<and> sint (GetOffset (of_nat 1) (of_nat 1) (of_nat 2)) = 352"
proof -
  have h: "(1::nat) < COL_COUNT" "(1::nat) < ROW_COUNT" "(2::nat) < CHANNEL_COUNT"
    by (simp_all add: ROW_COUNT_def COL_COUNT_def CHANNEL_COUNT_def)
  from GetOffset_in_range[OF h] h show ?thesis
    by (simp add: ROW_COUNT_def COL_COUNT_def)
qed

text \<open>
  The scenario of claim C7 as stated (\<open>offset(1, 1, 2) = 11\<close>, which needs a 2 by 2 grid)
  does not hold of the code.
\<close>

theorem GetOffset_scenario_counterexample: "sint (GetOffset 1 1 2) \<noteq> 11"
  by (simp add: GetOffset_def ROW_COUNT_def COL_COUNT_def)

text \<open>
  Claim C3, as the code has it. \<open>GetOffset\<close> checks no range and has no failure: a
  column beyond the last one silently lands in the next row, and a row beyond the last
  one in the next channel.
\<close>

theorem GetOffset_no_range_check:
  "GetOffset (cellX + 13) cellY channel = GetOffset cellX (cellY + 1) channel
   \<and> GetOffset cellX (cellY + 13) channel = GetOffset cellX cellY (channel + 1)"
  by (simp add: GetOffset_def ROW_COUNT_def COL_COUNT_def algebra_simps)

text \<open>
  Claim C3 as stated fails at \<open>cellX = 13\<close>, which is outside \<open>0 <= cellX < cols\<close>:
  the result is the index 13 of cell \<open>(0, 1)\<close>, not an error.
\<close>

theorem GetOffset_out_of_range_counterexample:
  "\<not> (13::nat) < COL_COUNT \<and> GetOffset 13 0 0 = 13 \<and> GetOffset 0 1 0 = 13"
  by (simp add: GetOffset_def ROW_COUNT_def COL_COUNT_def)

lemma representable_int:
  assumes "\<bar>n\<bar> < 2 ^ p" "emin \<le> 0"
  shows "representable p emin (of_int n)"
  unfolding representable_def
  by (rule exI[of _ n], rule exI[of _ 0]) (use assms in simp)

lemma representable_p2:
  assumes "0 < p" "emin \<le> e"
  shows "representable p emin (2 powi e)"
  unfolding representable_def
  by (rule exI[of _ 1], rule exI[of _ e]) (use assms in simp)

lemma round_pos_repr:
  assumes x: "0 < x" and p: "0 < p"
  shows "representable p emin (round_real p emin x)"
proof -
  define E where "E = \<lfloor>log 2 x\<rfloor>"
  define e where "e = ulp_exp p emin x"
  define q where "q = (2::real) powi e"
  define n where "n = rne (x / q)"
  have q: "0 < q" by (simp add: q_def)
  have rr: "round_real p emin x = of_int n * q"
    using x by (simp add: round_real_def e_def q_def n_def)
  have e_eq: "e = max (E - (int p - 1)) emin"
    using x by (simp add: e_def ulp_exp_def E_def)
  have emin: "emin \<le> e" using e_eq by simp
  have "x < 2 powi (E + 1)" using floor_log2_bounds(2)[OF x] by (simp add: E_def)
  also have "\<dots> \<le> 2 powi (int p + e)" using e_eq by (intro p2_mono) simp
  also have "\<dots> = 2 ^ p * q" by (simp add: p2_add q_def)
  finally have "x / q \<le> of_int (2 ^ p)" using q by (simp add: pos_divide_le_eq)
  from rne_mono[OF this] have n_le: "n \<le> 2 ^ p"
    using rne_of_int[of "2 ^ p"] by (simp add: n_def)
  have "of_int 0 \<le> x / q" using x q by simp
  from rne_mono[OF this] have n_ge: "0 \<le> n"
    using rne_of_int[of 0] by (simp add: n_def)
  show ?thesis
  proof (cases "n = 2 ^ p")
    case True
    have "of_int n * q = of_int (2 ^ (p - 1)) * 2 powi (e + 1)"
    proof -
      have "(2::real) ^ p = 2 ^ (p - 1) * 2" using p by (cases p) auto
      then show ?thesis by (simp add: True q_def p2_add)
    qed
    moreover have "\<bar>2 ^ (p - 1)\<bar> < (2::int) ^ p" using p by simp
    ultimately show ?thesis unfolding rr representable_def using emin
      by (intro exI[of _ "2 ^ (p - 1)"] exI[of _ "e + 1"]) simp
  next
    case False
    then have "\<bar>n\<bar> < 2 ^ p" using n_le n_ge by simp
    then show ?thesis unfolding rr representable_def q_def using emin
      by (intro exI[of _ n] exI[of _ e]) simp
  qed
qed

lemma round_repr:
  assumes p: "0 < p"
  shows "representable p emin (round_real p emin x)"
proof -
  consider "0 < x" | "x = 0" | "x < 0" by linarith
  then show ?thesis
  proof cases
    case 1 then show ?thesis by (rule round_pos_repr[OF _ p])
  next
    case 2 then show ?thesis by (simp add: round_real_def representable_0)
  next
    case 3
    then have "representable p emin (round_real p emin (- x))"
      by (intro round_pos_repr[OF _ p]) simp
    then show ?thesis by (simp add: round_real_minus representable_minus)
  qed
qed

text \<open>Rounding into a format, between two of its values.\<close>

lemma fround_between:
  assumes p: "0 < p"
    and lo: "representable p emin lo" "- (2 powi emax) < lo"
    and hi: "representable p emin hi" "hi < 2 powi emax"
    and x: "lo \<le> x" "x \<le> hi"
  shows "\<exists>y. fround p emin emax x = Fin y \<and> lo \<le> y \<and> y \<le> hi \<and> representable p emin y"
proof -
  have "lo \<le> round_real p emin x" using round_lower[OF p lo(1) x(1)] .
  moreover have "round_real p emin x \<le> hi" using round_upper[OF p hi(1) x(2)] .
  ultimately show ?thesis
    using lo(2) hi(2) round_repr[OF p, of emin x] by (simp add: fround_def Let_def)
qed

lemma fround_exact:
  assumes "0 < p" "representable p emin r" "\<bar>r\<bar> < 2 powi emax"
  shows "fround p emin emax r = Fin r"
  using assms round_exact[OF assms(1,2)] by (auto simp: fround_def Let_def)

lemma fround_overflow:
  assumes "0 < p" "emin \<le> emax" "2 powi emax \<le> x"
  shows "fround p emin emax x = PInf"
  using round_lower[OF assms(1) representable_p2[OF assms(1,2)] assms(3)]
  by (simp add: fround_def Let_def)

lemma fround_lower:
  assumes "0 < p" "representable p emin lo" "- (2 powi emax) < lo" "lo \<le> x"
  shows "fround p emin emax x = PInf \<or>
         (\<exists>y. fround p emin emax x = Fin y \<and> lo \<le> y \<and> representable p emin y)"
  using round_lower[OF assms(1,2,4)] assms(3) round_repr[OF assms(1), of emin x]
  by (simp add: fround_def Let_def)

lemma fround_upper:
  assumes "0 < p" "representable p emin hi" "hi < 2 powi emax" "x \<le> hi"
  shows "fround p emin emax x = NInf \<or>
         (\<exists>y. fround p emin emax x = Fin y \<and> y \<le> hi \<and> representable p emin y)"
  using round_upper[OF assms(1,2,4)] assms(3) round_repr[OF assms(1), of emin x]
  by (auto simp add: fround_def Let_def)

section \<open>Exact operations on small integers\<close>

lemma rnd32_exact:
  assumes "representable 24 (-149) r" "\<bar>r\<bar> < 2 ^ 128"
  shows "rnd32 r = Fin r"
  unfolding rnd32_def using assms by (intro fround_exact) simp_all

lemma rnd32_nat:
  assumes "n < 2 ^ 24"
  shows "rnd32 (real n) = Fin (real n)"
proof (rule rnd32_exact)
  have "representable 24 (-149) (of_int (int n))"
    using assms by (intro representable_int) simp_all
  then show "representable 24 (-149) (real n)" by simp
  have "real n < 2 ^ 24" using assms by (metis of_nat_less_numeral_power_cancel_iff)
  also have "\<dots> < (2::real) ^ 128" by simp
  finally show "\<bar>real n\<bar> < 2 ^ 128" by simp
qed

lemma i2f_small: "n < 2 ^ 24 \<Longrightarrow> i2f n = Fin (real n)"
  by (simp add: i2f_def rnd32_nat)

lemma f2i_nat:
  assumes "n < 2 ^ 31"
  shows "f2i (Fin (real n)) = of_nat n"
proof -
  have "int n < 2 ^ 31" using assms by (metis of_nat_less_numeral_power_cancel_iff)
  then show ?thesis by (simp add: Let_def)
qed

lemma class_channel:
  assumes "i < 2 ^ 23" "c < 2 ^ 23"
  shows "f2i (fadd (i2f i) (i2f c)) = of_nat (i + c)"
proof -
  have ic: "i + c < 2 ^ 24" using assms by simp
  have "fadd (i2f i) (i2f c) = rnd32 (real (i + c))"
    using assms by (simp add: i2f_small fadd_def)
  also have "\<dots> = Fin (real (i + c))" using ic by (rule rnd32_nat)
  finally show ?thesis using ic by (simp add: f2i_nat)
qed


section \<open>The loop body against the specification\<close>

lemma vec_read_tensor:
  assumes "c * 169 + cy * 13 + cx < length t" "c * 169 + cy * 13 + cx < 2 ^ 31"
  shows "vec_read t (GetOffset (of_nat cx) (of_nat cy) (of_nat c)) = Inr (tensor_at t cx cy c)"
proof -
  have "sint (GetOffset (of_nat cx) (of_nat cy) (of_nat c)) = int (c * 169 + cy * 13 + cx)"
    unfolding GetOffset_of_nat using assms(2) by (rule sint_of_nat_small)
  moreover have "nat (int (c * 169 + cy * 13 + cx)) = c * 169 + cy * 13 + cx"
    by (rule nat_int)
  moreover have "tensor_at t cx cy c = t ! (c * 169 + cy * 13 + cx)"
    by (simp add: tensor_at_def ROW_COUNT_def COL_COUNT_def)
  ultimately show ?thesis
    using assms(1) by (simp only: vec_read_def of_nat_0_le_iff simp_thms if_True)
qed

lemma offset_bound:
  fixes cx cy c :: nat
  assumes "cx < 13" "cy < 13" "c < 125"
  shows "c * 169 + cy * 13 + cx < 21125"
  using assms by linarith

lemma vec_read_valid:
  assumes "tensor_length \<le> length t" "cx < COL_COUNT" "cy < ROW_COUNT" "c < CHANNEL_COUNT"
  shows "vec_read t (GetOffset (of_nat cx) (of_nat cy) (of_nat c)) = Inr (tensor_at t cx cy c)"
proof -
  have "c * 169 + cy * 13 + cx < 21125"
    using assms by (intro offset_bound) (simp_all add: ROW_COUNT_def COL_COUNT_def CHANNEL_COUNT_def)
  moreover have "21125 \<le> length t"
    using assms(1) by (simp add: tensor_length_def ROW_COUNT_def COL_COUNT_def CHANNEL_COUNT_def)
  ultimately show ?thesis by (intro vec_read_tensor) simp_all
qed

lemma read_classes_valid:
  assumes "tensor_length \<le> length t" "cx < COL_COUNT" "cy < ROW_COUNT" "b < BOXES_PER_CELL"
    and "length classes = CLASS_COUNT" "i \<le> CLASS_COUNT"
  shows "read_classes t cx cy (i2f (b * 25 + 5)) i classes =
         Inr (take i classes @ map (\<lambda>j. tensor_at t cx cy (b * 25 + 5 + j)) [i..<CLASS_COUNT])"
  using assms(5,6)
proof (induction "CLASS_COUNT - i" arbitrary: i classes)
  case 0
  then have "i = CLASS_COUNT" by simp
  then show ?case using 0 by (subst read_classes.simps) simp
next
  case (Suc n)
  then have i: "i < CLASS_COUNT" by simp
  have b: "b < 5" using assms(4) by (simp add: BOXES_PER_CELL_def)
  have ch: "f2i (fadd (i2f i) (i2f (b * 25 + 5))) = of_nat (i + (b * 25 + 5))"
    using i b by (intro class_channel) (simp_all add: CLASS_COUNT_def)
  have "i + (b * 25 + 5) < CHANNEL_COUNT"
    using i b by (simp add: CLASS_COUNT_def CHANNEL_COUNT_def)
  from vec_read_valid[OF assms(1,2,3) this]
  have "vec_read t (GetOffset (of_nat cx) (of_nat cy) (of_nat (i + (b * 25 + 5))))
            = Inr (tensor_at t cx cy (i + (b * 25 + 5)))" .
  moreover have "i + (b * 25 + 5) = b * 25 + 5 + i" by simp
  ultimately
  have rd: "vec_read t (GetOffset (of_nat cx) (of_nat cy) (f2i (fadd (i2f i) (i2f (b * 25 + 5)))))
            = Inr (tensor_at t cx cy (b * 25 + 5 + i))"
    unfolding ch by (simp only:)
  have IH: "read_classes t cx cy (i2f (b * 25 + 5)) (i + 1)
              (classes[i := tensor_at t cx cy (b * 25 + 5 + i)]) =
            Inr (take (i + 1) (classes[i := tensor_at t cx cy (b * 25 + 5 + i)]) @
                 map (\<lambda>j. tensor_at t cx cy (b * 25 + 5 + j)) [i + 1..<CLASS_COUNT])"
    using Suc.hyps(2) Suc.prems i by (intro Suc.hyps(1)) simp_all
  have tk: "take (i + 1) (classes[i := v]) = take i classes @ [v]" for v
    using i Suc.prems(1) by (simp add: take_Suc_conv_app_nth)
  have up: "[i..<CLASS_COUNT] = i # [i + 1..<CLASS_COUNT]"
    using i by (simp add: upt_conv_Cons)
  have "read_classes t cx cy (i2f (b * 25 + 5)) i classes =
        read_classes t cx cy (i2f (b * 25 + 5)) (i + 1)
          (classes[i := tensor_at t cx cy (b * 25 + 5 + i)])"
    by (subst read_classes.simps) (simp add: i rd ebind_def)
  also note IH
  also have "Inr (take (i + 1) (classes[i := tensor_at t cx cy (b * 25 + 5 + i)]) @
                 map (\<lambda>j. tensor_at t cx cy (b * 25 + 5 + j)) [i + 1..<CLASS_COUNT]) =
             (Inr (take i classes @
                 map (\<lambda>j. tensor_at t cx cy (b * 25 + 5 + j)) [i..<CLASS_COUNT])
              :: error + fpval list)"
    unfolding tk up by simp
  finally show ?case .
qed

lemma read_classes_init:
  assumes "tensor_length \<le> length t" "cx < COL_COUNT" "cy < ROW_COUNT" "b < BOXES_PER_CELL"
  shows "read_classes t cx cy (i2f (b * 25 + 5)) 0 (replicate CLASS_COUNT (Fin 0)) =
         Inr (class_logits t cx cy b)"
  using read_classes_valid[OF assms, of "replicate CLASS_COUNT (Fin 0)" 0]
  by (simp add: class_logits_def CLASS_COUNT_def)

lemma max_loop_bound:
  "largest < i \<Longrightarrow> max_loop vs i largest lv < i + length vs"
proof (induction vs arbitrary: i largest lv)
  case Nil
  then show ?case by simp
next
  case (Cons a vs)
  have "max_loop vs (Suc i) k w < Suc i + length vs" if "k < Suc i" for k w
    using Cons.IH[of k "Suc i" w] that by simp
  from this[of i a] this[of largest lv] Cons.prems show ?case by simp
qed

lemma max_element_less: "vs \<noteq> [] \<Longrightarrow> max_element vs < length vs"
  using max_loop_bound[of 0 1] by (cases vs) (auto simp: max_element_def)

lemma Softmax_nonempty: "vs \<noteq> [] \<Longrightarrow> Softmax vs = Inr (softmax_dist vs)"
  by (simp add: Softmax_def softmax_dist_def arr_read_def max_element_less ebind_def Let_def)

lemma length_softmax_dist: "length (softmax_dist vs) = length vs"
  by (simp add: softmax_dist_def Let_def)

lemma length_class_logits: "length (class_logits t cx cy b) = CLASS_COUNT"
  by (simp add: class_logits_def)

lemma length_anchors: "length anchors = 10"
  by (simp add: anchors_def)

lemma length_labels: "length labels = 20"
  by (simp add: labels_def)

lemma anchor_box_valid:
  assumes len: "tensor_length \<le> length t"
    and cx: "cx < COL_COUNT" and cy: "cy < ROW_COUNT" and b: "b < BOXES_PER_CELL"
  shows "anchor_box t threshold cy cx b = Inr (spec_detection t threshold cy cx b)"
proof -
  have b5: "b < 5" using b by (simp add: BOXES_PER_CELL_def)
  have rd: "vec_read t (GetOffset (of_nat cx) (of_nat cy) (of_nat (b * 25 + k))) =
            Inr (tensor_at t cx cy (b * 25 + k))" if "k < 25" for k
    using that b5 by (intro vec_read_valid[OF len cx cy]) (simp add: CHANNEL_COUNT_def)
  have rd0: "vec_read t (GetOffset (of_nat cx) (of_nat cy) (of_nat (b * 25))) =
            Inr (tensor_at t cx cy (b * 25))"
    using rd[of 0] by simp
  have an: "arr_read anchors (b * 2) = Inr (anchors ! (2 * b))"
       "arr_read anchors (b * 2 + 1) = Inr (anchors ! (2 * b + 1))"
    using b5 by (simp_all add: arr_read_def length_anchors mult.commute)
  have cl: "read_classes t cx cy (i2f (b * 25 + 5)) 0 (replicate CLASS_COUNT (Fin 0)) =
         Inr (class_logits t cx cy b)"
    by (rule read_classes_init[OF len cx cy b])
  have ne: "class_logits t cx cy b \<noteq> []"
    using length_class_logits[of t cx cy b] by (auto simp: CLASS_COUNT_def)
  have sm: "Softmax (class_logits t cx cy b) = Inr (softmax_dist (class_logits t cx cy b))"
    by (rule Softmax_nonempty[OF ne])
  define dist where "dist = softmax_dist (class_logits t cx cy b)"
  have ld: "length dist = 20"
    by (simp add: dist_def length_softmax_dist length_class_logits CLASS_COUNT_def)
  then have "dist \<noteq> []" by auto
  then have mx: "max_element dist < 20" using max_element_less[of dist] ld by simp
  have top: "arr_read dist (max_element dist) = Inr (dist ! max_element dist)"
    using mx ld by (simp add: arr_read_def)
  have lab: "arr_read labels (max_element dist) = Inr (labels ! max_element dist)"
    using mx by (simp add: arr_read_def length_labels)
  have ch: "b * (CLASS_COUNT + BOX_INFO_FEATURE_COUNT) = b * 25"
    "b * 25 + BOX_INFO_FEATURE_COUNT = b * 25 + 5" "b * (CLASS_COUNT + 5) = b * 25"
    by (simp_all add: CLASS_COUNT_def BOX_INFO_FEATURE_COUNT_def)
  have rd1: "vec_read t (GetOffset (of_nat cx) (of_nat cy) (of_nat (b * 25 + 1))) =
            Inr (tensor_at t cx cy (b * 25 + 1))"
    by (rule rd) simp
  have rd2: "vec_read t (GetOffset (of_nat cx) (of_nat cy) (of_nat (b * 25 + 2))) =
            Inr (tensor_at t cx cy (b * 25 + 2))"
    by (rule rd) simp
  have rd3: "vec_read t (GetOffset (of_nat cx) (of_nat cy) (of_nat (b * 25 + 3))) =
            Inr (tensor_at t cx cy (b * 25 + 3))"
    by (rule rd) simp
  have rd4: "vec_read t (GetOffset (of_nat cx) (of_nat cy) (of_nat (b * 25 + 4))) =
            Inr (tensor_at t cx cy (b * 25 + 4))"
    by (rule rd) simp
  show ?thesis
    unfolding anchor_box_def spec_detection_def Let_def ch
      spec_objectness_def spec_centerX_def spec_centerY_def spec_width_def spec_height_def
    by (simp only: rd0 rd1 rd2 rd3 rd4 an cl sm ebind_def sum.case top lab
        dist_def[symmetric] if_distrib[of Inr] simp_thms)
qed


section \<open>The loop nest against the scan order\<close>

lemma map_filter_append:
  "List.map_filter f (xs @ ys) = List.map_filter f xs @ List.map_filter f ys"
  by (simp add: List.map_filter_def)

lemma map_filter_concat:
  "List.map_filter f (concat xss) = concat (map (List.map_filter f) xss)"
  by (induction xss) (simp_all add: map_filter_append List.map_filter_simps)

lemma map_filter_map:
  "List.map_filter f (map g xs) = List.map_filter (\<lambda>v. f (g v)) xs"
  by (induction xs) (simp_all add: List.map_filter_simps split: option.split)

lemma loop_b_valid:
  assumes len: "tensor_length \<le> length t" and cx: "cx < COL_COUNT" and cy: "cy < ROW_COUNT"
  shows "loop_b t threshold cy cx b boxes = Inr (boxes @ cell_detections t threshold cy cx b)"
proof (induction "BOXES_PER_CELL - b" arbitrary: b boxes)
  case 0
  then show ?case by (subst loop_b.simps) (simp add: cell_detections_def List.map_filter_simps)
next
  case (Suc n)
  then have b: "b < BOXES_PER_CELL" by simp
  have IH: "loop_b t threshold cy cx (Suc b) bs =
            Inr (bs @ cell_detections t threshold cy cx (Suc b))" for bs
    using Suc.hyps by (intro Suc.hyps(1)) simp
  have up: "[b..<BOXES_PER_CELL] = b # [Suc b..<BOXES_PER_CELL]"
    using b by (simp add: upt_conv_Cons)
  show ?case
    by (subst loop_b.simps)
      (simp add: b anchor_box_valid[OF len cx cy b] IH cell_detections_def up
        List.map_filter_simps split: option.split)
qed

lemma loop_cx_valid:
  assumes len: "tensor_length \<le> length t" and cy: "cy < ROW_COUNT"
  shows "loop_cx t threshold cy cx boxes = Inr (boxes @ row_detections t threshold cy cx)"
proof (induction "COL_COUNT - cx" arbitrary: cx boxes)
  case 0
  then show ?case by (subst loop_cx.simps) (simp add: row_detections_def)
next
  case (Suc n)
  then have cx: "cx < COL_COUNT" by simp
  have IH: "loop_cx t threshold cy (Suc cx) bs =
            Inr (bs @ row_detections t threshold cy (Suc cx))" for bs
    using Suc.hyps by (intro Suc.hyps(1)) simp
  have up: "[cx..<COL_COUNT] = cx # [Suc cx..<COL_COUNT]"
    using cx by (simp add: upt_conv_Cons)
  show ?case
    by (subst loop_cx.simps)
      (simp add: cx loop_b_valid[OF len cx cy] IH row_detections_def up)
qed

lemma loop_cy_valid:
  assumes len: "tensor_length \<le> length t"
  shows "loop_cy t threshold cy boxes = Inr (boxes @ grid_detections t threshold cy)"
proof (induction "ROW_COUNT - cy" arbitrary: cy boxes)
  case 0
  then show ?case by (subst loop_cy.simps) (simp add: grid_detections_def)
next
  case (Suc n)
  then have cy: "cy < ROW_COUNT" by simp
  have IH: "loop_cy t threshold (Suc cy) bs =
            Inr (bs @ grid_detections t threshold (Suc cy))" for bs
    using Suc.hyps by (intro Suc.hyps(1)) simp
  have up: "[cy..<ROW_COUNT] = cy # [Suc cy..<ROW_COUNT]"
    using cy by (simp add: upt_conv_Cons)
  show ?case
    by (subst loop_cy.simps)
      (simp add: cy loop_cx_valid[OF len cy] IH grid_detections_def up)
qed

lemma grid_detections_scan: "grid_detections t threshold 0 = spec_decode t threshold"
  by (simp add: grid_detections_def row_detections_def cell_detections_def spec_decode_def
      scan_order_def map_filter_concat map_filter_map comp_def)

lemma GetRecognizedObjects_valid:
  assumes "tensor_length \<le> length t"
  shows "GetRecognizedObjects t threshold = Inr (spec_decode t threshold)"
  by (simp add: GetRecognizedObjects_def loop_cy_valid[OF assms] grid_detections_scan)

section \<open>Comparisons\<close>

lemma flt_fle_trans: "\<not> flt c t2 \<Longrightarrow> fle t1 t2 \<Longrightarrow> \<not> flt c t1"
  by (cases c; cases t1; cases t2) auto

lemma fle_refl: "v \<noteq> NaN \<Longrightarrow> fle v v"
  by (cases v) auto

lemma not_flt_fle: "a \<noteq> NaN \<Longrightarrow> b \<noteq> NaN \<Longrightarrow> \<not> flt a b \<Longrightarrow> fle b a"
  by (cases a; cases b) auto

lemma fle_flt_trans: "fle a b \<Longrightarrow> flt b c \<Longrightarrow> flt a c"
  by (cases a; cases b; cases c) auto

lemma fle_trans: "fle a b \<Longrightarrow> fle b c \<Longrightarrow> fle a c"
  by (cases a; cases b; cases c) auto

lemma flt_imp_fle: "flt a b \<Longrightarrow> fle a b"
  by (cases a; cases b) auto

section \<open>Some exact values\<close>

lemma rnd32_p2:
  assumes "-149 \<le> e" "e < 128"
  shows "rnd32 (2 powi e) = Fin (2 powi e)"
proof (rule rnd32_exact)
  show "representable 24 (-149) (2 powi e)" using assms by (intro representable_p2) simp_all
  have "(2::real) powi e < 2 powi 128" using assms by (intro p2_less) simp
  then show "\<bar>(2::real) powi e\<bar> < 2 ^ 128" by simp
qed

lemma rnd32_0 [simp]: "rnd32 0 = Fin 0"
  by (rule rnd32_exact) (simp_all add: representable_0)

lemma rnd32_1 [simp]: "rnd32 1 = Fin 1"
  using rnd32_p2[of 0] by simp

lemma rnd32_2 [simp]: "rnd32 2 = Fin 2"
  using rnd32_p2[of 1] by simp

lemma rnd32_half [simp]: "rnd32 (1/2) = Fin (1/2)"
  using rnd32_p2[of "-1"] by (simp add: power_int_minus)

lemma expf_0: "expf (Fin 0) = Fin 1"
  by simp

lemma Sigmoid_0: "Sigmoid (Fin 0) = Fin (1/2)"
  by (simp add: Sigmoid_def Let_def fadd_def fdiv_def)


section \<open>Properties of the scan\<close>

lemma set_scan_order:
  "(cy, cx, b) \<in> set scan_order \<longleftrightarrow> cy < ROW_COUNT \<and> cx < COL_COUNT \<and> b < BOXES_PER_CELL"
  by (auto simp: scan_order_def image_iff)

lemma map_filter_Nil:
  "(\<And>v. v \<in> set xs \<Longrightarrow> f v = None) \<Longrightarrow> List.map_filter f xs = []"
  by (induction xs) (simp_all add: List.map_filter_simps)

lemma map_filter_cong':
  "(\<And>v. v \<in> set xs \<Longrightarrow> f v = g v) \<Longrightarrow> List.map_filter f xs = List.map_filter g xs"
  by (induction xs) (auto simp: List.map_filter_simps split: option.split)

lemma map_filter_subseq:
  "(\<And>v w. v \<in> set xs \<Longrightarrow> g v = Some w \<Longrightarrow> f v = Some w) \<Longrightarrow>
   subseq (List.map_filter g xs) (List.map_filter f xs)"
proof (induction xs)
  case Nil
  then show ?case by (simp add: List.map_filter_simps)
next
  case (Cons a xs)
  then have IH: "subseq (List.map_filter g xs) (List.map_filter f xs)" by simp
  show ?case
  proof (cases "g a")
    case None
    then show ?thesis using IH
      by (cases "f a") (auto simp: List.map_filter_simps)
  next
    case (Some w)
    then have "f a = Some w" using Cons.prems by simp
    then show ?thesis using IH Some by (simp add: List.map_filter_simps)
  qed
qed

lemma set_map_filter: "w \<in> set (List.map_filter f xs) \<longleftrightarrow> (\<exists>v \<in> set xs. f v = Some w)"
  by (induction xs) (auto simp: List.map_filter_simps split: option.splits)

lemma spec_decode_Nil:
  assumes "\<And>cy cx b. cy < ROW_COUNT \<Longrightarrow> cx < COL_COUNT \<Longrightarrow> b < BOXES_PER_CELL \<Longrightarrow>
             spec_detection t threshold cy cx b = None"
  shows "spec_decode t threshold = []"
  unfolding spec_decode_def
  by (rule map_filter_Nil) (use assms in \<open>auto simp: set_scan_order\<close>)

lemma spec_detection_mono:
  assumes "fle t1 t2" "spec_detection t t2 cy cx b = Some w"
  shows "spec_detection t t1 cy cx b = Some w"
  using assms(2) flt_fle_trans[OF _ assms(1)]
  by (auto simp: spec_detection_def Let_def split: if_splits)

lemma spec_decode_mono:
  assumes "fle t1 t2"
  shows "subseq (spec_decode t t2) (spec_decode t t1)"
  unfolding spec_decode_def
  by (rule map_filter_subseq) (auto intro: spec_detection_mono[OF assms])


lemma anchor_box_early_discard:
  assumes cx: "cx < COL_COUNT" and cy: "cy < ROW_COUNT" and b: "b < BOXES_PER_CELL"
    and len: "(b * 25 + 4) * 169 + cy * 13 + cx < length t"
    and low: "flt (spec_objectness t cx cy b) threshold"
  shows "anchor_box t threshold cy cx b = Inr None"
proof -
  have b5: "b < 5" using b by (simp add: BOXES_PER_CELL_def)
  have c13: "cx < 13" "cy < 13" using cx cy by (simp_all add: ROW_COUNT_def COL_COUNT_def)
  have rd: "vec_read t (GetOffset (of_nat cx) (of_nat cy) (of_nat (b * 25 + k))) =
            Inr (tensor_at t cx cy (b * 25 + k))" if "k \<le> 4" for k
  proof (rule vec_read_tensor)
    have "(b * 25 + k) * 169 \<le> (b * 25 + 4) * 169" using that by simp
    then show "(b * 25 + k) * 169 + cy * 13 + cx < length t" using len by linarith
    show "(b * 25 + k) * 169 + cy * 13 + cx < 2 ^ 31" using b5 c13 that by simp
  qed
  have rd0: "vec_read t (GetOffset (of_nat cx) (of_nat cy) (of_nat (b * 25))) =
            Inr (tensor_at t cx cy (b * 25))"
    using rd[of 0] by simp
  have rd1: "vec_read t (GetOffset (of_nat cx) (of_nat cy) (of_nat (b * 25 + 1))) =
            Inr (tensor_at t cx cy (b * 25 + 1))"
    by (rule rd) simp
  have rd2: "vec_read t (GetOffset (of_nat cx) (of_nat cy) (of_nat (b * 25 + 2))) =
            Inr (tensor_at t cx cy (b * 25 + 2))"
    by (rule rd) simp
  have rd3: "vec_read t (GetOffset (of_nat cx) (of_nat cy) (of_nat (b * 25 + 3))) =
            Inr (tensor_at t cx cy (b * 25 + 3))"
    by (rule rd) simp
  have rd4: "vec_read t (GetOffset (of_nat cx) (of_nat cy) (of_nat (b * 25 + 4))) =
            Inr (tensor_at t cx cy (b * 25 + 4))"
    by (rule rd) simp
  have an: "arr_read anchors (b * 2) = Inr (anchors ! (2 * b))"
       "arr_read anchors (b * 2 + 1) = Inr (anchors ! (2 * b + 1))"
    using b5 by (simp_all add: arr_read_def length_anchors mult.commute)
  have ch: "b * (CLASS_COUNT + BOX_INFO_FEATURE_COUNT) = b * 25" "b * (CLASS_COUNT + 5) = b * 25"
    by (simp_all add: CLASS_COUNT_def BOX_INFO_FEATURE_COUNT_def)
  have low': "flt (Sigmoid (tensor_at t cx cy (b * 25 + 4))) threshold"
    using low unfolding spec_objectness_def ch .
  show ?thesis
    unfolding anchor_box_def Let_def ch
    by (simp only: rd0 rd1 rd2 rd3 rd4 an ebind_def sum.case low' if_True)
qed

text \<open>
  Claim C5. On a tensor of the expected length (or longer) the loop nest returns the
  detections of the anchors in row-major scan order (\<open>cy\<close> outermost, then \<open>cx\<close>, then
  the anchor), each filtered first on its objectness alone and then on the combined
  score of its first maximal class, against the same threshold; nothing is sorted. The
  first filter comes before any class logit is read: an anchor whose objectness is below
  the threshold is skipped even on a tensor that stops right after its objectness entry,
  where reading a class logit would be out of bounds.
\<close>

theorem decode_scan_order:
  "(tensor_length \<le> length t \<longrightarrow>
      GetRecognizedObjects t threshold = Inr (spec_decode t threshold))
   \<and> (cx < COL_COUNT \<and> cy < ROW_COUNT \<and> b < BOXES_PER_CELL
        \<and> (b * 25 + 4) * 169 + cy * 13 + cx < length t'
        \<and> flt (spec_objectness t' cx cy b) threshold
      \<longrightarrow> anchor_box t' threshold cy cx b = Inr None)"
  using GetRecognizedObjects_valid[of t threshold]
    anchor_box_early_discard[of cx cy b t' threshold] by blast

lemma spec_objectness_zero:
  assumes "(b * 25 + 4) * 169 + cy * 13 + cx < n"
  shows "spec_objectness (replicate n (Fin 0)) cx cy b = Fin (1/2)"
  using assms
  by (simp add: spec_objectness_def tensor_at_def CLASS_COUNT_def ROW_COUNT_def COL_COUNT_def
      Sigmoid_0 mult.commute)

theorem decode_scan_order_witness:
  "tensor_length \<le> length (replicate 21125 (Fin 0))
   \<and> GetRecognizedObjects (replicate 21125 (Fin 0)) (Fin 1) =
       Inr (spec_decode (replicate 21125 (Fin 0)) (Fin 1))
   \<and> (0::nat) < COL_COUNT \<and> (0::nat) < ROW_COUNT \<and> (0::nat) < BOXES_PER_CELL
   \<and> (0 * 25 + 4) * 169 + 0 * 13 + 0 < length (replicate 677 (Fin 0))
   \<and> flt (spec_objectness (replicate 677 (Fin 0)) 0 0 0) (Fin 1)
   \<and> anchor_box (replicate 677 (Fin 0)) (Fin 1) 0 0 0 = Inr None"
proof -
  have o: "spec_objectness (replicate 677 (Fin 0)) 0 0 0 = Fin (1/2)"
    by (rule spec_objectness_zero) simp
  show ?thesis
    using decode_scan_order[of "replicate 21125 (Fin 0)" "Fin 1" 0 0 0 "replicate 677 (Fin 0)"]
    by (simp add: o tensor_length_def ROW_COUNT_def COL_COUNT_def CHANNEL_COUNT_def
        BOXES_PER_CELL_def)
qed

text \<open>
  Claim C10. Raising the threshold only removes detections: for thresholds
  \<open>t1 <= t2\<close> the output at \<open>t2\<close> is a subsequence of the output at \<open>t1\<close>.
\<close>

theorem decode_threshold_monotone:
  assumes "tensor_length \<le> length t" "fle t1 t2"
  shows "\<exists>xs ys. GetRecognizedObjects t t1 = Inr xs \<and> GetRecognizedObjects t t2 = Inr ys
           \<and> subseq ys xs"
  using GetRecognizedObjects_valid[OF assms(1)] spec_decode_mono[OF assms(2)] by simp

theorem decode_threshold_monotone_witness:
  "tensor_length \<le> length (replicate 21125 (Fin 0)) \<and> fle (Fin 0) (Fin 1)
   \<and> (\<exists>xs ys. GetRecognizedObjects (replicate 21125 (Fin 0)) (Fin 0) = Inr xs
         \<and> GetRecognizedObjects (replicate 21125 (Fin 0)) (Fin 1) = Inr ys \<and> subseq ys xs)"
proof -
  have h: "tensor_length \<le> length (replicate 21125 (Fin 0))" "fle (Fin 0) (Fin 1)"
    by (simp_all add: tensor_length_def ROW_COUNT_def COL_COUNT_def CHANNEL_COUNT_def)
  from decode_threshold_monotone[OF h] h show ?thesis by blast
qed

section \<open>The length of the tensor\<close>

lemma tensor_at_take:
  assumes "cx < COL_COUNT" "cy < ROW_COUNT" "c < CHANNEL_COUNT"
  shows "tensor_at (take tensor_length t) cx cy c = tensor_at t cx cy c"
proof -
  have "c * 169 + cy * 13 + cx < 21125"
    using assms by (intro offset_bound) (simp_all add: ROW_COUNT_def COL_COUNT_def CHANNEL_COUNT_def)
  then show ?thesis
    by (simp add: tensor_at_def tensor_length_def ROW_COUNT_def COL_COUNT_def CHANNEL_COUNT_def)
qed

lemma spec_detection_take:
  assumes cx: "cx < COL_COUNT" and cy: "cy < ROW_COUNT" and b: "b < BOXES_PER_CELL"
  shows "spec_detection (take tensor_length t) threshold cy cx b = spec_detection t threshold cy cx b"
proof -
  have b5: "b < 5" using b by (simp add: BOXES_PER_CELL_def)
  have tk: "tensor_at (take tensor_length t) cx cy (b * 25 + k) = tensor_at t cx cy (b * 25 + k)"
    if "k < 25" for k
    using that b5 by (intro tensor_at_take[OF cx cy]) (simp add: CHANNEL_COUNT_def)
  have tk0: "tensor_at (take tensor_length t) cx cy (b * 25) = tensor_at t cx cy (b * 25)"
    using tk[of 0] by simp
  have cl: "class_logits (take tensor_length t) cx cy b = class_logits t cx cy b"
    unfolding class_logits_def
  proof (rule map_cong[OF refl])
    fix i assume "i \<in> set [0..<CLASS_COUNT]"
    then have "5 + i < 25" by (simp add: CLASS_COUNT_def)
    from tk[OF this]
    show "tensor_at (take tensor_length t) cx cy (b * (CLASS_COUNT + 5) + 5 + i) =
          tensor_at t cx cy (b * (CLASS_COUNT + 5) + 5 + i)"
      by (simp add: CLASS_COUNT_def add.assoc)
  qed
  have ch: "b * (CLASS_COUNT + 5) = b * 25" by (simp add: CLASS_COUNT_def)
  have tk1: "tensor_at (take tensor_length t) cx cy (b * 25 + 1) = tensor_at t cx cy (b * 25 + 1)"
    by (rule tk) simp
  have tk2: "tensor_at (take tensor_length t) cx cy (b * 25 + 2) = tensor_at t cx cy (b * 25 + 2)"
    by (rule tk) simp
  have tk3: "tensor_at (take tensor_length t) cx cy (b * 25 + 3) = tensor_at t cx cy (b * 25 + 3)"
    by (rule tk) simp
  have tk4: "tensor_at (take tensor_length t) cx cy (b * 25 + 4) = tensor_at t cx cy (b * 25 + 4)"
    by (rule tk) simp
  show ?thesis
    unfolding spec_detection_def spec_objectness_def spec_centerX_def spec_centerY_def
      spec_width_def spec_height_def
    by (simp only: ch cl tk0 tk1 tk2 tk3 tk4)
qed

lemma spec_decode_take:
  "spec_decode (take tensor_length t) threshold = spec_decode t threshold"
  unfolding spec_decode_def
  by (rule map_filter_cong') (auto simp: set_scan_order spec_detection_take)

lemma GetRecognizedObjects_empty: "GetRecognizedObjects [] threshold = Inl OutOfBounds"
proof -
  have "anchor_box [] threshold 0 0 0 = Inl OutOfBounds"
    by (simp add: anchor_box_def Let_def vec_read_def ebind_def)
  then have "loop_b [] threshold 0 0 0 [] = Inl OutOfBounds"
    by (subst loop_b.simps) (simp add: BOXES_PER_CELL_def)
  then have "loop_cx [] threshold 0 0 [] = Inl OutOfBounds"
    by (subst loop_cx.simps) (simp add: COL_COUNT_def)
  then have "loop_cy [] threshold 0 [] = Inl OutOfBounds"
    by (subst loop_cy.simps) (simp add: ROW_COUNT_def)
  then show ?thesis by (simp add: GetRecognizedObjects_def)
qed



lemma spec_detection_zero_tensor:
  assumes "cx < COL_COUNT" "cy < ROW_COUNT" "b < BOXES_PER_CELL" "21125 \<le> n"
  shows "spec_detection (replicate n (Fin 0)) (Fin 1) cy cx b = None"
proof -
  have "(b * 25 + 4) * 169 + cy * 13 + cx < 21125"
    using assms by (intro offset_bound) (simp_all add: ROW_COUNT_def COL_COUNT_def BOXES_PER_CELL_def)
  then have "(b * 25 + 4) * 169 + cy * 13 + cx < n" using assms(4) by simp
  from spec_objectness_zero[OF this] show ?thesis
    by (simp add: spec_detection_def)
qed


section \<open>The range of \<open>expf\<close> and of \<open>Sigmoid\<close>\<close>

lemma rne_eq:
  assumes "\<bar>y - of_int n\<bar> < 1/2"
  shows "rne y = n"
proof (cases "of_int n \<le> y")
  case True
  then have "\<lfloor>y\<rfloor> = n" using assms by (intro floor_unique) auto
  then show ?thesis using assms True unfolding rne_def Let_def by auto
next
  case False
  then have "\<lfloor>y\<rfloor> = n - 1" using assms by (intro floor_unique) auto
  then show ?thesis using assms False unfolding rne_def Let_def by auto
qed

lemma round_underflow:
  assumes "0 \<le> x" "x < 2 powi (emin - 1)" "0 < p"
  shows "round_real p emin x = 0"
proof (cases "x = 0")
  case True
  then show ?thesis by (simp add: round_real_def)
next
  case False
  then have x: "0 < x" using assms(1) by simp
  define E where "E = \<lfloor>log 2 x\<rfloor>"
  have "2 powi E \<le> x" using floor_log2_bounds(1)[OF x] by (simp add: E_def)
  then have "2 powi E < (2::real) powi (emin - 1)" using assms(2) by simp
  then have "E < emin - 1" by (rule p2_less_cancel)
  then have e: "ulp_exp p emin x = emin" using x assms(3) by (simp add: ulp_exp_def E_def)
  have "x / 2 powi emin < 1 / 2"
  proof -
    have "(2::real) powi (emin - 1) = 2 powi emin / 2" by (simp add: p2_diff)
    then have "x < 2 powi emin / 2" using assms(2) by simp
    then show ?thesis by (simp add: pos_divide_less_eq)
  qed
  moreover have "0 \<le> x / 2 powi emin" using x by simp
  ultimately have "\<bar>x / 2 powi emin - of_int 0\<bar> < 1 / 2" by (simp add: abs_if)
  then have "rne (x / 2 powi emin) = 0" by (rule rne_eq)
  then show ?thesis using False by (simp add: round_real_def e)
qed

lemma rnd32_underflow:
  assumes "0 \<le> x" "x < 2 powi (-150)"
  shows "rnd32 x = Fin 0"
  using round_underflow[of x "-149" 24] assms by (simp add: rnd32_def fround_def Let_def)

lemma rnd32_overflow: "2 ^ 128 \<le> x \<Longrightarrow> rnd32 x = PInf"
  unfolding rnd32_def by (rule fround_overflow) simp_all

lemma exp_ge_p2: "2 ^ n \<le> exp (real n)"
proof -
  have "(2::real) \<le> exp 1" using exp_ge_add_one_self[of 1] by simp
  then have "(2::real) ^ n \<le> exp 1 ^ n" by (intro power_mono) simp_all
  then show ?thesis using exp_of_nat_mult[of n "1::real"] by simp
qed

lemma exp_le_p3: "exp (real n) \<le> 3 ^ n"
proof -
  have "exp 1 ^ n \<le> (3::real) ^ n" by (intro power_mono exp_le) simp
  then show ?thesis using exp_of_nat_mult[of n "1::real"] by simp
qed

lemma expf_range:
  "expf (Fin r) = PInf \<or> (\<exists>y. expf (Fin r) = Fin y \<and> 0 \<le> y \<and> representable 24 (-149) y)"
  using fround_lower[of 24 "-149" 0 128 "exp r"] by (simp add: rnd32_def representable_0)

lemma expf_finite_80:
  assumes "r \<le> 80"
  shows "is_finite (expf (Fin r))"
proof -
  have "exp r \<le> exp (real 80)" using assms by simp
  also have "\<dots> \<le> 3 ^ 80" by (rule exp_le_p3)
  also have "\<dots> \<le> (2::real) powi 127" by simp
  finally have le: "exp r \<le> 2 powi 127" .
  have hi: "representable 24 (-149) (2 powi 127)" by (rule representable_p2) simp_all
  have lt: "(2::real) powi 127 < 2 powi 128" by (rule p2_less) simp
  have "\<exists>y. fround 24 (-149) 128 (exp r) = Fin y \<and> 0 \<le> y \<and> y \<le> 2 powi 127
          \<and> representable 24 (-149) y"
    using _ representable_0 _ hi lt _ le
    by (rule fround_between) simp_all
  then show ?thesis by (auto simp: rnd32_def)
qed

lemma expf_overflow_200: "expf (Fin 200) = PInf"
proof -
  have "(2::real) ^ 128 \<le> 2 ^ 200" by simp
  also have "\<dots> \<le> exp (real 200)" by (rule exp_ge_p2)
  finally show ?thesis by (simp add: rnd32_overflow)
qed

lemma expf_underflow_200: "expf (Fin (- 200)) = Fin 0"
proof -
  define P :: real where "P = 2 ^ 200"
  have P: "0 < P" by (simp add: P_def)
  have "P \<le> exp (real 200)" unfolding P_def by (rule exp_ge_p2)
  with P have "inverse (exp (real 200)) \<le> inverse P" by (intro le_imp_inverse_le)
  then have "exp (- 200) \<le> inverse P" by (simp add: exp_minus)
  also have "\<dots> < 2 powi (- 150)" by (simp add: P_def power_int_minus)
  finally have "exp (- 200) < (2::real) powi (- 150)" .
  then show ?thesis by (simp add: rnd32_underflow)
qed

lemma Sigmoid_finite_exp:
  assumes "expf v = Fin y" "0 \<le> y" "representable 24 (-149) y"
  shows "\<exists>s. Sigmoid v = Fin s \<and> 0 \<le> s \<and> s \<le> 1"
proof -
  have one: "representable 24 (-149) 1" using representable_p2[of 24 "-149" 0] by simp
  from fround_lower[of 24 "-149" 1 128 "1 + y"] one assms(2)
  consider "rnd32 (1 + y) = PInf" | d where "rnd32 (1 + y) = Fin d" "1 \<le> d"
    by (auto simp: rnd32_def)
  then show ?thesis
  proof cases
    case 1
    then show ?thesis using assms by (simp add: Sigmoid_def Let_def fadd_def fdiv_def)
  next
    case 2
    have "round_real 24 (-149) (1 + y) = d"
      using 2(1) by (auto simp: rnd32_def fround_def Let_def split: if_splits)
    then have yd: "y \<le> d"
      using round_lower[of 24 "-149" y "1 + y"] assms(3) by simp
    have d: "0 < d" using 2(2) by simp
    have q: "0 \<le> y / d" "y / d \<le> 1" using yd d assms(2) by simp_all
    have "\<exists>s. fround 24 (-149) 128 (y / d) = Fin s \<and> 0 \<le> s \<and> s \<le> 1
            \<and> representable 24 (-149) s"
      by (rule fround_between) (use q one in \<open>simp_all add: representable_0\<close>)
    then show ?thesis
      using assms(1) 2 d by (auto simp: Sigmoid_def Let_def fadd_def fdiv_def rnd32_def)
  qed
qed

lemma Sigmoid_range_finite:
  assumes "is_finite (expf (Fin r))"
  shows "\<exists>s. Sigmoid (Fin r) = Fin s \<and> 0 \<le> s \<and> s \<le> 1"
  using expf_range[of r] assms Sigmoid_finite_exp[of "Fin r"] by auto

lemma Sigmoid_overflow_200: "Sigmoid (Fin 200) = NaN"
  by (simp add: Sigmoid_def Let_def expf_overflow_200 fadd_def fdiv_def del: expf.simps)

lemma Sigmoid_underflow_200: "Sigmoid (Fin (- 200)) = Fin 0"
  by (simp add: Sigmoid_def Let_def expf_underflow_200 fadd_def fdiv_def del: expf.simps)


text \<open>
  Claim C1, as the code has it. \<open>Sigmoid\<close> computes \<open>k / (1 + k)\<close> with
  \<open>k = exp(v)\<close>. Whenever \<open>exp(v)\<close> is finite in binary32 (as it is for every
  \<open>v <= 80\<close>), the result is a float in the closed interval from 0 to 1, and
  \<open>Sigmoid(0)\<close> is exactly one half.
\<close>

theorem Sigmoid_range:
  "(is_finite (expf (Fin r)) \<longrightarrow> (\<exists>s. Sigmoid (Fin r) = Fin s \<and> 0 \<le> s \<and> s \<le> 1))
   \<and> (r \<le> 80 \<longrightarrow> is_finite (expf (Fin r)))
   \<and> Sigmoid (Fin 0) = Fin (1/2)"
  using Sigmoid_range_finite[of r] expf_finite_80[of r] Sigmoid_0 by blast

theorem Sigmoid_range_witness:
  "is_finite (expf (Fin 0)) \<and> (0::real) \<le> 80
   \<and> (\<exists>s. Sigmoid (Fin 0) = Fin s \<and> 0 \<le> s \<and> s \<le> 1)"
proof -
  have h: "is_finite (expf (Fin 0))" "(0::real) \<le> 80" by simp_all
  from Sigmoid_range[of 0] h show ?thesis by blast
qed

text \<open>
  Claim C1 as stated asks for a result strictly between 0 and 1. At the float \<open>-200\<close>
  the result is exactly 0: \<open>exp(-200)\<close> is below half of the smallest subnormal.
\<close>

theorem Sigmoid_strict_counterexample:
  "is_float32 (Fin (- 200)) \<and> Sigmoid (Fin (- 200)) = Fin 0"
proof -
  have "representable 24 (-149) (of_int (- 200))"
    by (rule representable_int) simp_all
  then have "is_float32 (Fin (- 200))" by (simp add: is_float32_def)
  then show ?thesis by (simp add: Sigmoid_underflow_200)
qed

section \<open>The first maximal element\<close>

lemma max_loop_spec:
  assumes "\<forall>v\<in>set (pre @ vs). v \<noteq> NaN" "largest < length pre" "lv = pre ! largest"
    and "\<forall>j<length pre. fle (pre ! j) lv" "\<forall>j<largest. flt (pre ! j) lv" "i = length pre"
  shows "max_loop vs i largest lv < length (pre @ vs)
         \<and> (\<forall>j<length (pre @ vs). fle ((pre @ vs) ! j) ((pre @ vs) ! max_loop vs i largest lv))
         \<and> (\<forall>j<max_loop vs i largest lv.
               flt ((pre @ vs) ! j) ((pre @ vs) ! max_loop vs i largest lv))"
  using assms
proof (induction vs arbitrary: pre largest lv i)
  case Nil
  then show ?case by simp
next
  case (Cons v vs)
  have nn: "v \<noteq> NaN" "lv \<noteq> NaN" using Cons.prems by (auto simp: nth_append)
  have eq: "pre @ v # vs = (pre @ [v]) @ vs" by simp
  show ?case
  proof (cases "flt lv v")
    case True
    have a: "\<forall>j<length (pre @ [v]). fle ((pre @ [v]) ! j) v"
    proof (intro allI impI)
      fix j assume "j < length (pre @ [v])"
      then consider "j < length pre" | "j = length pre" by fastforce
      then show "fle ((pre @ [v]) ! j) v"
      proof cases
        case 1
        then have "fle (pre ! j) lv" using Cons.prems(4) by simp
        then show ?thesis using True 1 by (simp add: nth_append fle_flt_trans flt_imp_fle)
      next
        case 2
        then show ?thesis using nn by (simp add: fle_refl)
      qed
    qed
    have b: "\<forall>j<i. flt ((pre @ [v]) ! j) v"
      using Cons.prems(4,6) True by (auto simp: nth_append intro: fle_flt_trans)
    have "max_loop vs (i + 1) i v < length ((pre @ [v]) @ vs)
         \<and> (\<forall>j<length ((pre @ [v]) @ vs).
               fle (((pre @ [v]) @ vs) ! j) (((pre @ [v]) @ vs) ! max_loop vs (i + 1) i v))
         \<and> (\<forall>j<max_loop vs (i + 1) i v.
               flt (((pre @ [v]) @ vs) ! j) (((pre @ [v]) @ vs) ! max_loop vs (i + 1) i v))"
      using Cons.prems(1,6) a b by (intro Cons.IH) (simp_all add: nth_append)
    then show ?thesis using True unfolding eq by simp
  next
    case False
    have a: "\<forall>j<length (pre @ [v]). fle ((pre @ [v]) ! j) lv"
    proof (intro allI impI)
      fix j assume "j < length (pre @ [v])"
      then consider "j < length pre" | "j = length pre" by fastforce
      then show "fle ((pre @ [v]) ! j) lv"
      proof cases
        case 1
        then show ?thesis using Cons.prems(4) by (simp add: nth_append)
      next
        case 2
        then show ?thesis using nn False by (simp add: not_flt_fle)
      qed
    qed
    have b: "\<forall>j<largest. flt ((pre @ [v]) ! j) lv"
      using Cons.prems(2,5) by (auto simp: nth_append)
    have "max_loop vs (i + 1) largest lv < length ((pre @ [v]) @ vs)
         \<and> (\<forall>j<length ((pre @ [v]) @ vs).
               fle (((pre @ [v]) @ vs) ! j) (((pre @ [v]) @ vs) ! max_loop vs (i + 1) largest lv))
         \<and> (\<forall>j<max_loop vs (i + 1) largest lv.
               flt (((pre @ [v]) @ vs) ! j) (((pre @ [v]) @ vs) ! max_loop vs (i + 1) largest lv))"
      using Cons.prems(1,2,3,6) a b by (intro Cons.IH) (simp_all add: nth_append)
    then show ?thesis using False unfolding eq by simp
  qed
qed

lemma max_element_spec:
  assumes "vs \<noteq> []" "\<forall>v\<in>set vs. v \<noteq> NaN"
  shows "max_element vs < length vs
         \<and> (\<forall>j<length vs. fle (vs ! j) (vs ! max_element vs))
         \<and> (\<forall>j<max_element vs. flt (vs ! j) (vs ! max_element vs))"
proof -
  obtain v rest where vs: "vs = v # rest" using assms(1) by (cases vs) auto
  have "v \<noteq> NaN" using assms(2) vs by simp
  then have "fle v v" by (rule fle_refl)
  with max_loop_spec[of "[v]" rest 0 v 1] assms(2) vs
  show ?thesis by (simp add: max_element_def)
qed

section \<open>The range of the class distribution\<close>

lemma representable_mono:
  assumes "representable p emin r" "p \<le> p'" "emin' \<le> emin"
  shows "representable p' emin' r"
proof -
  from assms(1) obtain m e where r: "r = of_int m * 2 powi e" "\<bar>m\<bar> < 2 ^ p" "emin \<le> e"
    by (auto simp: representable_def)
  have "(2::int) ^ p \<le> 2 ^ p'" using assms(2) by (intro power_increasing) simp_all
  then have "\<bar>m\<bar> < 2 ^ p'" using r(2) by linarith
  then show ?thesis unfolding representable_def using r(1,3) assms(3)
    by (intro exI[of _ m] exI[of _ e]) simp
qed

lemma representable_1: "0 < p \<Longrightarrow> emin \<le> 0 \<Longrightarrow> representable p emin 1"
  using representable_p2[of p emin 0] by simp

lemma rnd32_unit:
  assumes "0 \<le> x" "x \<le> 1"
  shows "unit_float (rnd32 x)"
proof -
  have "\<exists>y. fround 24 (-149) 128 x = Fin y \<and> 0 \<le> y \<and> y \<le> 1 \<and> representable 24 (-149) y"
    using _ representable_0 _ representable_1 _ assms
    by (rule fround_between) simp_all
  then show ?thesis by (simp add: unit_float_def rnd32_def)
qed

lemma f2d_unit:
  assumes "unit_float v"
  shows "f2d v = v"
proof -
  from assms obtain s where s: "v = Fin s" "0 \<le> s" "s \<le> 1" "representable 24 (-149) s"
    by (auto simp: unit_float_def)
  have "representable 53 (-1074) s" using s(4) by (rule representable_mono) simp_all
  moreover have "\<bar>s\<bar> < 2 powi 1024"
  proof -
    have "\<bar>s\<bar> \<le> 2 powi 0" using s(2,3) by simp
    also have "\<dots> < (2::real) powi 1024" by (rule p2_less) simp
    finally show ?thesis .
  qed
  ultimately have "fround 53 (-1074) 1024 s = Fin s" by (intro fround_exact) simp_all
  then show ?thesis by (simp add: s(1) rnd64_def)
qed

lemma dadd_ge:
  assumes "sum_ge lo acc" "unit_float e" "representable 53 (-1074) lo" "- (2 powi 1024) < lo"
  shows "sum_ge lo (dadd acc (f2d e))"
proof -
  from assms(2) obtain s where s: "e = Fin s" "0 \<le> s" by (auto simp: unit_float_def)
  have r64: "rnd64 s = Fin s" using f2d_unit[OF assms(2)] by (simp add: s(1))
  show ?thesis
  proof (cases "acc = PInf")
    case True
    then show ?thesis using s by (simp add: r64 dadd_def sum_ge_def)
  next
    case False
    then obtain a where a: "acc = Fin a" "lo \<le> a" using assms(1) by (auto simp: sum_ge_def)
    have "lo \<le> a + s" using a(2) s(2) by simp
    then have "fround 53 (-1074) 1024 (a + s) = PInf \<or>
         (\<exists>y. fround 53 (-1074) 1024 (a + s) = Fin y \<and> lo \<le> y \<and> representable 53 (-1074) y)"
      using assms(3,4) by (intro fround_lower) simp_all
    then have "sum_ge lo (rnd64 (a + s))" by (auto simp: sum_ge_def rnd64_def)
    then show ?thesis by (simp add: r64 dadd_def a(1) s(1))
  qed
qed

lemma accumulate_ge:
  assumes "sum_ge lo acc" "\<forall>e\<in>set es. unit_float e"
    "representable 53 (-1074) lo" "- (2 powi 1024) < lo"
  shows "sum_ge lo (foldl (\<lambda>acc x. dadd acc (f2d x)) acc es)"
  using assms(1,2)
proof (induction es arbitrary: acc)
  case Nil
  then show ?case by simp
next
  case (Cons e es)
  have "sum_ge lo (dadd acc (f2d e))"
    using Cons.prems assms(3,4) by (intro dadd_ge) simp_all
  then show ?case using Cons by simp
qed

lemma dadd_one:
  assumes "sum_ge 0 acc"
  shows "sum_ge 1 (dadd acc (f2d (Fin 1)))"
proof -
  have u: "unit_float (Fin 1)" by (simp add: unit_float_def representable_1)
  have r64: "rnd64 1 = Fin 1" using f2d_unit[OF u] by simp
  show ?thesis
  proof (cases "acc = PInf")
    case True
    then show ?thesis by (simp add: r64 dadd_def sum_ge_def)
  next
    case False
    then obtain a where a: "acc = Fin a" "0 \<le> a" using assms by (auto simp: sum_ge_def)
    have "1 \<le> a + 1" using a(2) by simp
    then have "fround 53 (-1074) 1024 (a + 1) = PInf \<or>
         (\<exists>y. fround 53 (-1074) 1024 (a + 1) = Fin y \<and> 1 \<le> y \<and> representable 53 (-1074) y)"
      by (intro fround_lower) (simp_all add: representable_1)
    then have "sum_ge 1 (rnd64 (a + 1))" by (auto simp: sum_ge_def rnd64_def)
    then show ?thesis by (simp add: r64 dadd_def a(1))
  qed
qed

lemma accumulate_ge_1:
  assumes "\<forall>e\<in>set es. unit_float e" "Fin 1 \<in> set es"
  shows "sum_ge 1 (foldl (\<lambda>acc x. dadd acc (f2d x)) (Fin 0) es)"
proof -
  from split_list[OF assms(2)] obtain xs ys where es: "es = xs @ Fin 1 # ys" by blast
  have 0: "sum_ge 0 (Fin 0)" by (simp add: sum_ge_def)
  have "sum_ge 0 (foldl (\<lambda>acc x. dadd acc (f2d x)) (Fin 0) xs)"
    using 0 assms(1) es by (intro accumulate_ge) (simp_all add: representable_0)
  then have "sum_ge 1 (dadd (foldl (\<lambda>acc x. dadd acc (f2d x)) (Fin 0) xs) (f2d (Fin 1)))"
    by (rule dadd_one)
  then have "sum_ge 1 (foldl (\<lambda>acc x. dadd acc (f2d x))
               (dadd (foldl (\<lambda>acc x. dadd acc (f2d x)) (Fin 0) xs) (f2d (Fin 1))) ys)"
    using assms(1) es by (intro accumulate_ge) (simp_all add: representable_1)
  then show ?thesis by (simp add: es)
qed


lemma expf_fsub_unit:
  assumes "a \<le> M"
  shows "unit_float (expf (fsub (Fin a) (Fin M)))"
proof -
  have "a - M \<le> 0" using assms by simp
  then have "fround 24 (-149) 128 (a - M) = NInf \<or>
       (\<exists>y. fround 24 (-149) 128 (a - M) = Fin y \<and> y \<le> 0 \<and> representable 24 (-149) y)"
    by (intro fround_upper) (simp_all add: representable_0)
  then consider "fsub (Fin a) (Fin M) = NInf" | d where "fsub (Fin a) (Fin M) = Fin d" "d \<le> 0"
    by (auto simp: fsub_def rnd32_def)
  then show ?thesis
  proof cases
    case 1
    then show ?thesis by (simp add: unit_float_def representable_0)
  next
    case 2
    then show ?thesis by (simp add: rnd32_unit)
  qed
qed

lemma expf_fsub_self: "expf (fsub (Fin M) (Fin M)) = Fin 1"
  by (simp add: fsub_def)

lemma d2f_ge_1:
  assumes "sum_ge 1 acc"
  shows "sum_ge 1 (d2f acc)"
proof (cases "acc = PInf")
  case True
  then show ?thesis by (simp add: sum_ge_def)
next
  case False
  then obtain a where a: "acc = Fin a" "1 \<le> a" using assms by (auto simp: sum_ge_def)
  have "fround 24 (-149) 128 a = PInf \<or>
       (\<exists>y. fround 24 (-149) 128 a = Fin y \<and> 1 \<le> y \<and> representable 24 (-149) y)"
    using a(2) by (intro fround_lower) (simp_all add: representable_1)
  then show ?thesis by (auto simp: a(1) sum_ge_def rnd32_def)
qed

lemma fdiv_unit:
  assumes "unit_float e" "sum_ge 1 tot"
  shows "unit_float (fdiv e tot)"
proof -
  from assms(1) obtain s where s: "e = Fin s" "0 \<le> s" "s \<le> 1" by (auto simp: unit_float_def)
  show ?thesis
  proof (cases "tot = PInf")
    case True
    then show ?thesis by (simp add: s(1) fdiv_def unit_float_def representable_0)
  next
    case False
    then obtain T where T: "tot = Fin T" "1 \<le> T" using assms(2) by (auto simp: sum_ge_def)
    have "0 \<le> s / T" "s / T \<le> 1" using s(2,3) T(2) by simp_all
    then have "unit_float (rnd32 (s / T))" by (rule rnd32_unit)
    then show ?thesis using T by (simp add: s(1) fdiv_def)
  qed
qed

lemma softmax_dist_unit:
  assumes "vs \<noteq> []" "\<forall>v\<in>set vs. is_finite v"
  shows "\<forall>x\<in>set (softmax_dist vs). unit_float x"
proof -
  define k where "k = max_element vs"
  have nn: "\<forall>v\<in>set vs. v \<noteq> NaN" using assms(2) by auto
  from max_element_spec[OF assms(1) nn]
  have k: "k < length vs" and mx: "\<forall>j<length vs. fle (vs ! j) (vs ! k)"
    by (simp_all add: k_def)
  have "is_finite (vs ! k)" using assms(2) k by simp
  then obtain M where M: "vs ! k = Fin M" by (cases "vs ! k") auto
  define es where "es = map (\<lambda>v. expf (fsub v (Fin M))) vs"
  have es_unit: "\<forall>e\<in>set es. unit_float e"
  proof
    fix e assume "e \<in> set es"
    then obtain v where v: "v \<in> set vs" "e = expf (fsub v (Fin M))" by (auto simp: es_def)
    then obtain j where j: "j < length vs" "v = vs ! j" by (auto simp: in_set_conv_nth)
    obtain a where a: "v = Fin a" using assms(2) v(1) by (cases v) auto
    have "fle (Fin a) (Fin M)" using mx j a M by auto
    then have "a \<le> M" by simp
    then show "unit_float e" unfolding v(2) a by (rule expf_fsub_unit)
  qed
  have "es ! k = Fin 1" using k M by (simp add: es_def expf_fsub_self)
  moreover have "k < length es" using k by (simp add: es_def)
  ultimately have one: "Fin 1 \<in> set es" by (metis nth_mem)
  define tot where "tot = d2f (foldl (\<lambda>acc x. dadd acc (f2d x)) (Fin 0) es)"
  have tot: "sum_ge 1 tot"
    unfolding tot_def by (intro d2f_ge_1 accumulate_ge_1 es_unit one)
  have sd: "softmax_dist vs = map (\<lambda>e. fdiv e tot) es"
    by (simp add: softmax_dist_def Let_def es_def tot_def M flip: k_def)
  show ?thesis unfolding sd using es_unit tot by (auto intro: fdiv_unit)
qed

lemma unit_float_not_NaN: "unit_float v \<Longrightarrow> v \<noteq> NaN"
  by (auto simp: unit_float_def)

section \<open>Saturation of \<open>Sigmoid\<close> at 1\<close>

lemma round_real_eq:
  assumes "x \<noteq> 0" "e = ulp_exp p emin x" "\<bar>x / 2 powi e - of_int n\<bar> < 1/2"
  shows "round_real p emin x = of_int n * 2 powi e"
  using assms rne_eq[OF assms(3)] by (simp add: round_real_def)

lemma floor_log2_ge:
  assumes "2 powi k \<le> (x::real)"
  shows "k \<le> \<lfloor>log 2 x\<rfloor>"
proof -
  have x: "0 < x" using assms zero_less_power_int[of "2::real" k] by linarith
  have "2 powi k < (2::real) powi (\<lfloor>log 2 x\<rfloor> + 1)"
    using assms floor_log2_bounds(2)[OF x] by simp
  then have "k < \<lfloor>log 2 x\<rfloor> + 1" by (rule p2_less_cancel)
  then show ?thesis by simp
qed

lemma round_one_plus:
  assumes rep: "representable 24 (-149) y" and big: "2 ^ 25 \<le> y"
  shows "round_real 24 (-149) (1 + y) = y"
proof -
  define x where "x = 1 + y"
  define E where "E = \<lfloor>log 2 x\<rfloor>"
  define e where "e = E - 23"
  have x: "0 < x" "2 powi 25 \<le> x" using big by (simp_all add: x_def)
  have E25: "25 \<le> E" unfolding E_def by (rule floor_log2_ge[OF x(2)])
  have Ex: "2 powi E \<le> x" using floor_log2_bounds(1)[OF x(1)] by (simp add: E_def)
  have "ulp_exp 24 (-149) x = max (E - 23) (-149)"
    using x(1) by (simp add: ulp_exp_def E_def)
  then have ulp: "ulp_exp 24 (-149) x = e" using E25 by (simp add: e_def)
  obtain m e' where y: "y = of_int m * 2 powi e'" and m: "\<bar>m\<bar> < 2 ^ 24" and e': "-149 \<le> e'"
    using rep by (auto simp: representable_def)
  have e'2: "2 \<le> e'"
  proof (rule ccontr)
    assume "\<not> 2 \<le> e'"
    then have "int 24 + e' \<le> 25" by simp
    from repr_below_binade[OF y m this] big show False by simp
  qed
  have ee: "e \<le> e'"
  proof (rule ccontr)
    assume "\<not> e \<le> e'"
    then have "int 24 + e' \<le> E" by (simp add: e_def)
    from repr_below_binade[OF y m this] have yE: "y < 2 powi E" .
    define a where "a = m * 2 ^ nat (e' - 2)"
    define b :: int where "b = 2 ^ nat (E - 2)"
    have ya: "y = of_int a * 2 powi 2" unfolding y a_def by (rule p2_multiple[OF e'2])
    have "(2::real) powi E = of_int (1 * 2 ^ nat (E - 2)) * 2 powi 2"
      using p2_multiple[of 2 E 1] E25 by simp
    then have Eb: "(2::real) powi E = of_int b * 2 powi 2" by (simp add: b_def)
    have "real_of_int a < of_int b" using yE unfolding ya Eb by simp
    then have "a + 1 \<le> b" by simp
    then have "real_of_int a + 1 \<le> of_int b" by (metis of_int_1 of_int_add of_int_le_iff)
    moreover have "of_int b * 4 \<le> 1 + real_of_int a * 4"
      using Ex unfolding x_def ya Eb by simp
    ultimately show False by linarith
  qed
  define n where "n = m * 2 ^ nat (e' - e)"
  have yn: "y = of_int n * 2 powi e" unfolding y n_def by (rule p2_multiple[OF ee])
  have e2: "2 \<le> e" using E25 by (simp add: e_def)
  have q4: "(2::real) powi 2 \<le> 2 powi e" using e2 by (rule p2_mono)
  have "x / 2 powi e - of_int n = 1 / 2 powi e"
    unfolding x_def yn by (simp add: field_simps)
  moreover have "1 / (2::real) powi e \<le> 1 / 4"
    using q4 by (simp add: field_simps)
  ultimately have "\<bar>x / 2 powi e - of_int n\<bar> < 1 / 2" by simp
  from round_real_eq[OF _ ulp[symmetric] this] x(1)
  show ?thesis by (simp add: x_def yn)
qed

lemma Sigmoid_30: "Sigmoid (Fin 30) = Fin 1"
proof -
  have lo: "(2::real) powi 30 \<le> exp 30"
    using exp_ge_p2[of 30] by simp
  have hi: "exp 30 \<le> (2::real) powi 48"
  proof -
    have "exp (real 30) \<le> 3 ^ 30" by (rule exp_le_p3)
    also have "\<dots> \<le> (2::real) powi 48" by simp
    finally show ?thesis by simp
  qed
  have r30: "representable 24 (-149) (2 powi 30)" by (rule representable_p2) simp_all
  have r48: "representable 24 (-149) (2 powi 48)" by (rule representable_p2) simp_all
  have b1: "- ((2::real) powi 128) < 2 powi 30"
    using zero_less_power_int[of "2::real" 128] zero_less_power_int[of "2::real" 30]
    by linarith
  have b2: "(2::real) powi 48 < 2 powi 128" by (rule p2_less) simp
  have "\<exists>y. fround 24 (-149) 128 (exp 30) = Fin y \<and> 2 powi 30 \<le> y \<and> y \<le> 2 powi 48
            \<and> representable 24 (-149) y"
    using _ r30 b1 r48 b2 lo hi by (rule fround_between) simp
  then obtain y where y: "expf (Fin 30) = Fin y" "2 powi 30 \<le> y" "y \<le> 2 powi 48"
    "representable 24 (-149) y"
    by (auto simp: rnd32_def)
  have y25: "2 ^ 25 \<le> y"
  proof -
    have "(2::real) powi 25 \<le> 2 powi 30" by (rule p2_mono) simp
    then show ?thesis using y(2) by simp
  qed
  have y128: "y < 2 powi 128" using y(3) b2 by linarith
  have ypos: "0 < y" using y25 by (smt (verit) zero_less_power)
  have "rnd32 (1 + y) = Fin y"
    using round_one_plus[OF y(4) y25] y128 ypos
    by (simp add: rnd32_def fround_def Let_def)
  then show ?thesis
    using y(1) ypos by (simp add: Sigmoid_def Let_def fadd_def fdiv_def del: expf.simps)
qed

section \<open>Decoding at a threshold of 1 and above\<close>

lemma max_loop_zeros: "max_loop (replicate n (Fin 0)) i 0 (Fin 1) = 0"
  by (induction n arbitrary: i) simp_all

lemma max_loop_zeros_200: "max_loop (replicate n (Fin 0)) i 0 (Fin 200) = 0"
  by (induction n arbitrary: i) simp_all

lemma rnd64_0 [simp]: "rnd64 0 = Fin 0"
  unfolding rnd64_def by (rule fround_exact) (simp_all add: representable_0)

lemma rnd64_1 [simp]: "rnd64 1 = Fin 1"
  unfolding rnd64_def by (rule fround_exact) (simp_all add: representable_1)

lemma accumulate_zeros:
  "foldl (\<lambda>acc x. dadd acc (f2d x)) (Fin 1) (replicate n (Fin 0)) = Fin 1"
  by (induction n) (simp_all add: dadd_def)

lemma rnd32_m200: "rnd32 (- 200) = Fin (- 200)"
proof (rule rnd32_exact)
  have "representable 24 (-149) (of_int (- 200))" by (rule representable_int) simp_all
  then show "representable 24 (-149) (- 200)" by simp
  show "\<bar>- 200 :: real\<bar> < 2 ^ 128" by simp
qed

lemma softmax_one_hot:
  "softmax_dist (Fin 200 # replicate n (Fin 0)) = Fin 1 # replicate n (Fin 0)"
proof -
  have m: "max_element (Fin 200 # replicate n (Fin 0)) = 0"
    by (simp add: max_element_def max_loop_zeros_200)
  have e0: "expf (fsub (Fin 0) (Fin 200)) = Fin 0"
    using expf_underflow_200 by (simp add: fsub_def rnd32_m200 del: expf.simps)
  have d1: "dadd (Fin 0) (f2d (Fin 1)) = Fin 1" by (simp add: dadd_def)
  have acc: "foldl (\<lambda>acc x. dadd acc (f2d x)) (Fin 0) (Fin 1 # replicate n (Fin 0)) = Fin 1"
    by (simp add: d1 accumulate_zeros del: f2d.simps)
  show ?thesis
    unfolding softmax_dist_def Let_def m
    by (simp add: expf_fsub_self e0 acc fdiv_def del: expf.simps f2d.simps foldl.simps)
qed

lemma upt_20: "[0..<20] = [0, 1, 2, 3, 4, 5, 6, 7, 8, 9, 10, 11, 12, 13, 14, 15, 16, 17, 18, 19]"
  by (simp add: upt_rec)

lemma replicate_19: "replicate 19 v = [v, v, v, v, v, v, v, v, v, v, v, v, v, v, v, v, v, v, v]"
  by (simp add: numeral_eq_Suc)

lemma one_hot_class_logits:
  "class_logits ((replicate 21125 (Fin 0))[676 := Fin 30, 845 := Fin 200]) 0 0 0 =
   Fin 200 # replicate 19 (Fin 0)"
  unfolding class_logits_def CLASS_COUNT_def upt_20 replicate_19
  by (simp add: tensor_at_def ROW_COUNT_def COL_COUNT_def)

lemma one_hot_detection:
  "spec_detection ((replicate 21125 (Fin 0))[676 := Fin 30, 845 := Fin 200]) (Fin 1) 0 0 0 \<noteq> None"
proof -
  have o: "spec_objectness ((replicate 21125 (Fin 0))[676 := Fin 30, 845 := Fin 200]) 0 0 0 = Fin 1"
    by (simp add: spec_objectness_def tensor_at_def ROW_COUNT_def COL_COUNT_def Sigmoid_30)
  have m: "max_element (Fin 1 # replicate 19 (Fin 0)) = 0"
    by (simp add: max_element_def max_loop_zeros)
  show ?thesis
    unfolding spec_detection_def Let_def o one_hot_class_logits softmax_one_hot m
    by (simp add: fmul_def)
qed

text \<open>
  Claim C2 as stated fails at the threshold 1.0. On a tensor of zeros except for one
  objectness logit of 30 and one class logit of 200 in the first anchor, the objectness
  and the top class probability both round to exactly 1, the combined score is 1, and
  \<open>1 < 1\<close> is false: the detection is kept.
\<close>

theorem decode_threshold_one_counterexample:
  "length ((replicate 21125 (Fin 0))[676 := Fin 30, 845 := Fin 200]) = tensor_length
   \<and> GetRecognizedObjects ((replicate 21125 (Fin 0))[676 := Fin 30, 845 := Fin 200]) (Fin 1)
       \<noteq> Inr []"
proof -
  define t where "t = (replicate 21125 (Fin 0))[676 := Fin 30, 845 := Fin 200]"
  have len: "length t = tensor_length"
    by (simp add: t_def tensor_length_def ROW_COUNT_def COL_COUNT_def CHANNEL_COUNT_def)
  obtain w where w: "spec_detection t (Fin 1) 0 0 0 = Some w"
    using one_hot_detection unfolding t_def by blast
  have "(0, 0, 0) \<in> set scan_order"
    by (simp add: set_scan_order ROW_COUNT_def COL_COUNT_def BOXES_PER_CELL_def)
  with w have "w \<in> set (spec_decode t (Fin 1))"
    unfolding spec_decode_def set_map_filter by force
  then have "spec_decode t (Fin 1) \<noteq> []" by auto
  then have "GetRecognizedObjects t (Fin 1) \<noteq> Inr []"
    using GetRecognizedObjects_valid[of t "Fin 1"] len by simp
  with len show ?thesis unfolding t_def by simp
qed



lemma Sigmoid_not_NaN_unit:
  assumes "Sigmoid v \<noteq> NaN"
  shows "\<exists>s. Sigmoid v = Fin s \<and> 0 \<le> s \<and> s \<le> 1"
proof (cases v)
  case NaN
  then show ?thesis using assms by (simp add: Sigmoid_def Let_def fadd_def fdiv_def)
next
  case PInf
  then show ?thesis using assms by (simp add: Sigmoid_def Let_def fadd_def fdiv_def)
next
  case NInf
  have "expf NInf = Fin 0" by simp
  from Sigmoid_finite_exp[OF this] show ?thesis unfolding NInf by (simp add: representable_0)
next
  case (Fin r)
  have "expf (Fin r) \<noteq> PInf"
  proof
    assume "expf (Fin r) = PInf"
    then have "Sigmoid (Fin r) = NaN"
      by (simp add: Sigmoid_def Let_def fadd_def fdiv_def del: expf.simps)
    with assms Fin show False by simp
  qed
  with expf_range[of r] Sigmoid_finite_exp[of "Fin r"] show ?thesis unfolding Fin by blast
qed



lemma spec_detection_above_one:
  assumes obj: "spec_objectness t cx cy b \<noteq> NaN" and thr: "flt (Fin 1) threshold"
  shows "spec_detection t threshold cy cx b = None"
proof -
  from Sigmoid_not_NaN_unit obj
  obtain s where s: "spec_objectness t cx cy b = Fin s" "0 \<le> s" "s \<le> 1"
    unfolding spec_objectness_def by blast
  have "flt (Fin s) threshold" using s(3) thr by (cases threshold) auto
  then show ?thesis unfolding spec_detection_def Let_def s(1) by simp
qed

text \<open>
  Claim C2, as the code has it. On a tensor of the expected length none of whose
  objectness values is a NaN (no objectness logit makes \<open>exp\<close> overflow), every
  objectness is a float between 0 and 1, so a threshold above 1.0 discards every anchor
  at the first filter and leaves no detection.
\<close>

theorem decode_threshold_above_one:
  assumes "tensor_length \<le> length t"
    and "\<forall>cy<ROW_COUNT. \<forall>cx<COL_COUNT. \<forall>b<BOXES_PER_CELL. spec_objectness t cx cy b \<noteq> NaN"
    and "flt (Fin 1) threshold"
  shows "GetRecognizedObjects t threshold = Inr []
         \<and> (\<forall>cy<ROW_COUNT. \<forall>cx<COL_COUNT. \<forall>b<BOXES_PER_CELL.
               \<exists>s. spec_objectness t cx cy b = Fin s \<and> 0 \<le> s \<and> s \<le> 1
                   \<and> flt (spec_objectness t cx cy b) threshold)"
proof
  have "spec_decode t threshold = []"
    by (rule spec_decode_Nil) (use assms in \<open>simp add: spec_detection_above_one\<close>)
  then show "GetRecognizedObjects t threshold = Inr []"
    using GetRecognizedObjects_valid[OF assms(1)] by simp
  show "\<forall>cy<ROW_COUNT. \<forall>cx<COL_COUNT. \<forall>b<BOXES_PER_CELL.
          \<exists>s. spec_objectness t cx cy b = Fin s \<and> 0 \<le> s \<and> s \<le> 1
              \<and> flt (spec_objectness t cx cy b) threshold"
  proof (intro allI impI)
    fix cy cx b assume "cy < ROW_COUNT" "cx < COL_COUNT" "b < BOXES_PER_CELL"
    then have "spec_objectness t cx cy b \<noteq> NaN" using assms(2) by simp
    with Sigmoid_not_NaN_unit
    obtain s where s: "spec_objectness t cx cy b = Fin s" "0 \<le> s" "s \<le> 1"
      unfolding spec_objectness_def by blast
    have "flt (Fin s) threshold" using s(3) assms(3) by (cases threshold) auto
    with s show "\<exists>s. spec_objectness t cx cy b = Fin s \<and> 0 \<le> s \<and> s \<le> 1
              \<and> flt (spec_objectness t cx cy b) threshold" by simp
  qed
qed

theorem decode_threshold_above_one_witness:
  "tensor_length \<le> length (replicate 21125 (Fin 0))
   \<and> flt (Fin 1) (Fin 2)
   \<and> GetRecognizedObjects (replicate 21125 (Fin 0)) (Fin 2) = Inr []"
proof -
  have h1: "tensor_length \<le> length (replicate 21125 (Fin 0))"
    by (simp add: tensor_length_def ROW_COUNT_def COL_COUNT_def CHANNEL_COUNT_def)
  have h3: "\<forall>cy<ROW_COUNT. \<forall>cx<COL_COUNT. \<forall>b<BOXES_PER_CELL.
         spec_objectness (replicate 21125 (Fin 0)) cx cy b \<noteq> NaN"
  proof (intro allI impI)
    fix cy cx b assume "cy < ROW_COUNT" "cx < COL_COUNT" "b < BOXES_PER_CELL"
    then have "(b * 25 + 4) * 169 + cy * 13 + cx < 21125"
      by (intro offset_bound) (simp_all add: ROW_COUNT_def COL_COUNT_def BOXES_PER_CELL_def)
    from spec_objectness_zero[OF this]
    show "spec_objectness (replicate 21125 (Fin 0)) cx cy b \<noteq> NaN" by simp
  qed
  have h4: "flt (Fin 1) (Fin 2)" by simp
  from decode_threshold_above_one[OF h1 h3 h4] h1 h4 show ?thesis by blast
qed

section \<open>The top class\<close>

lemma anchor_box_Some:
  assumes len: "tensor_length \<le> length t"
    and cx: "cx < COL_COUNT" and cy: "cy < ROW_COUNT" and b: "b < BOXES_PER_CELL"
    and em: "anchor_box t threshold cy cx b = Inr (Some w)"
  shows "box_label w = labels ! max_element (softmax_dist (class_logits t cx cy b))"
    and "box_confidence w =
           fmul (softmax_dist (class_logits t cx cy b)
                   ! max_element (softmax_dist (class_logits t cx cy b)))
                (spec_objectness t cx cy b)"
    and "\<not> flt (spec_objectness t cx cy b) threshold"
proof -
  have sd: "spec_detection t threshold cy cx b = Some w"
    using anchor_box_valid[OF len cx cy b, of threshold] em by simp
  then show "box_label w = labels ! max_element (softmax_dist (class_logits t cx cy b))"
    by (auto simp: spec_detection_def Let_def split: if_splits)
  from sd show "box_confidence w =
           fmul (softmax_dist (class_logits t cx cy b)
                   ! max_element (softmax_dist (class_logits t cx cy b)))
                (spec_objectness t cx cy b)"
    by (auto simp: spec_detection_def Let_def split: if_splits)
  from sd show "\<not> flt (spec_objectness t cx cy b) threshold"
    by (auto simp: spec_detection_def Let_def split: if_splits)
qed

section \<open>The class distribution on arbitrary logits\<close>

lemma flt_irrefl: "\<not> flt v v"
  by (cases v) auto

lemma flt_not_exceeded: "flt a b \<Longrightarrow> \<not> flt a c \<Longrightarrow> \<not> flt b c"
  by (cases a; cases b; cases c) auto

lemma max_loop_no_exceed:
  assumes "largest < length pre" "lv = pre ! largest"
    and "\<forall>j<length pre. \<not> flt lv (pre ! j)" "i = length pre"
  shows "\<forall>j<length (pre @ vs). \<not> flt ((pre @ vs) ! max_loop vs i largest lv) ((pre @ vs) ! j)"
  using assms
proof (induction vs arbitrary: pre largest lv i)
  case Nil
  then show ?case by simp
next
  case (Cons v vs)
  have eq: "pre @ v # vs = (pre @ [v]) @ vs" by simp
  show ?case
  proof (cases "flt lv v")
    case True
    have a: "\<forall>j<length (pre @ [v]). \<not> flt v ((pre @ [v]) ! j)"
    proof (intro allI impI)
      fix j assume "j < length (pre @ [v])"
      then consider "j < length pre" | "j = length pre" by fastforce
      then show "\<not> flt v ((pre @ [v]) ! j)"
      proof cases
        case 1
        then have "\<not> flt lv (pre ! j)" using Cons.prems(3) by simp
        with True have "\<not> flt v (pre ! j)" by (rule flt_not_exceeded)
        then show ?thesis using 1 by (simp add: nth_append)
      next
        case 2
        then show ?thesis by (simp add: flt_irrefl)
      qed
    qed
    have "\<forall>j<length ((pre @ [v]) @ vs).
            \<not> flt (((pre @ [v]) @ vs) ! max_loop vs (i + 1) i v) (((pre @ [v]) @ vs) ! j)"
      using Cons.prems(4) a by (intro Cons.IH) (simp_all add: nth_append)
    then show ?thesis using True unfolding eq by simp
  next
    case False
    have a: "\<forall>j<length (pre @ [v]). \<not> flt lv ((pre @ [v]) ! j)"
    proof (intro allI impI)
      fix j assume "j < length (pre @ [v])"
      then consider "j < length pre" | "j = length pre" by fastforce
      then show "\<not> flt lv ((pre @ [v]) ! j)"
      proof cases
        case 1
        then show ?thesis using Cons.prems(3) by (simp add: nth_append)
      next
        case 2
        then show ?thesis using False by simp
      qed
    qed
    have "\<forall>j<length ((pre @ [v]) @ vs).
            \<not> flt (((pre @ [v]) @ vs) ! max_loop vs (i + 1) largest lv) (((pre @ [v]) @ vs) ! j)"
      using Cons.prems(1,2,4) a by (intro Cons.IH) (simp_all add: nth_append)
    then show ?thesis using False unfolding eq by simp
  qed
qed

lemma max_element_no_exceed:
  assumes "vs \<noteq> []"
  shows "\<forall>j<length vs. \<not> flt (vs ! max_element vs) (vs ! j)"
proof -
  obtain v rest where vs: "vs = v # rest" using assms by (cases vs) auto
  from max_loop_no_exceed[of 0 "[v]" v 1 rest] show ?thesis
    by (simp add: vs max_element_def flt_irrefl)
qed

lemma max_loop_NaN: "max_loop vs i l NaN = l"
  by (induction vs arbitrary: i) simp_all

lemma max_element_all_NaN:
  assumes "\<forall>v\<in>set vs. v = NaN"
  shows "max_element vs = 0"
  using assms by (cases vs) (simp_all add: max_element_def max_loop_NaN)

lemma accumulate_from_NaN: "foldl (\<lambda>acc x. dadd acc (f2d x)) NaN es = NaN"
  by (induction es) (simp_all add: dadd_def)

lemma accumulate_NaN:
  assumes "NaN \<in> set es"
  shows "foldl (\<lambda>acc x. dadd acc (f2d x)) acc es = NaN"
proof -
  from split_list[OF assms] obtain xs ys where es: "es = xs @ NaN # ys" by blast
  have "dadd a (f2d NaN) = NaN" for a by (cases a) (simp_all add: dadd_def)
  then show ?thesis by (simp add: es accumulate_from_NaN)
qed

lemma fdiv_NaN: "fdiv e NaN = NaN"
  by (cases e) (simp_all add: fdiv_def)

lemma softmax_dist_all_NaN:
  assumes "NaN \<in> set (map (\<lambda>v. expf (fsub v (vs ! max_element vs))) vs)"
  shows "\<forall>x\<in>set (softmax_dist vs). x = NaN"
  unfolding softmax_dist_def Let_def accumulate_NaN[OF assms]
  by (simp add: fdiv_NaN)

lemma softmax_dist_unit_max:
  assumes "vs \<noteq> []" "\<forall>v\<in>set vs. v \<noteq> NaN" "vs ! max_element vs = Fin M"
  shows "\<forall>x\<in>set (softmax_dist vs). unit_float x"
proof -
  define k where "k = max_element vs"
  from max_element_spec[OF assms(1,2)]
  have k: "k < length vs" and mx: "\<forall>j<length vs. fle (vs ! j) (vs ! k)"
    by (simp_all add: k_def)
  have M: "vs ! k = Fin M" using assms(3) by (simp add: k_def)
  define es where "es = map (\<lambda>v. expf (fsub v (Fin M))) vs"
  have es_unit: "\<forall>e\<in>set es. unit_float e"
  proof
    fix e assume "e \<in> set es"
    then obtain v where v: "v \<in> set vs" "e = expf (fsub v (Fin M))" by (auto simp: es_def)
    then obtain j where j: "j < length vs" "v = vs ! j" by (auto simp: in_set_conv_nth)
    have le: "fle v (Fin M)" using mx j M by auto
    show "unit_float e"
    proof (cases v)
      case NaN
      then show ?thesis using le by simp
    next
      case PInf
      then show ?thesis using le by simp
    next
      case NInf
      then show ?thesis unfolding v(2) by (simp add: fsub_def unit_float_def representable_0)
    next
      case (Fin a)
      then have "a \<le> M" using le by simp
      then show ?thesis unfolding v(2) Fin by (rule expf_fsub_unit)
    qed
  qed
  have "es ! k = Fin 1" using k M by (simp add: es_def expf_fsub_self)
  moreover have "k < length es" using k by (simp add: es_def)
  ultimately have one: "Fin 1 \<in> set es" by (metis nth_mem)
  define tot where "tot = d2f (foldl (\<lambda>acc x. dadd acc (f2d x)) (Fin 0) es)"
  have tot: "sum_ge 1 tot"
    unfolding tot_def by (intro d2f_ge_1 accumulate_ge_1 es_unit one)
  have sd: "softmax_dist vs = map (\<lambda>e. fdiv e tot) es"
    by (simp add: softmax_dist_def Let_def es_def tot_def M flip: k_def)
  show ?thesis unfolding sd using es_unit tot by (auto intro: fdiv_unit)
qed

lemma softmax_dist_cases:
  assumes "vs \<noteq> []"
  shows "(\<forall>x\<in>set (softmax_dist vs). unit_float x) \<or> (\<forall>x\<in>set (softmax_dist vs). x = NaN)"
proof (cases "\<forall>v\<in>set vs. v \<noteq> NaN")
  case False
  then obtain v where v: "v \<in> set vs" "v = NaN" by blast
  have "expf (fsub NaN (vs ! max_element vs)) = NaN" by (simp add: fsub_def)
  with v have "NaN \<in> set (map (\<lambda>v. expf (fsub v (vs ! max_element vs))) vs)"
    by (metis (mono_tags, lifting) image_eqI list.set_map)
  from softmax_dist_all_NaN[OF this] show ?thesis by blast
next
  case True
  define k where "k = max_element vs"
  have k: "k < length vs" unfolding k_def by (rule max_element_less[OF assms])
  show ?thesis
  proof (cases "vs ! k")
    case (Fin M)
    then show ?thesis using softmax_dist_unit_max[OF assms True] by (simp add: k_def)
  next
    case NaN
    then show ?thesis using True k nth_mem by metis
  next
    case PInf
    have "expf (fsub (vs ! k) (vs ! k)) = NaN" unfolding PInf by (simp add: fsub_def)
    then have "NaN \<in> set (map (\<lambda>v. expf (fsub v (vs ! k))) vs)"
      using k by (metis (mono_tags, lifting) image_eqI list.set_map nth_mem)
    from softmax_dist_all_NaN[OF this[unfolded k_def]] show ?thesis by blast
  next
    case NInf
    have "expf (fsub (vs ! k) (vs ! k)) = NaN" unfolding NInf by (simp add: fsub_def)
    then have "NaN \<in> set (map (\<lambda>v. expf (fsub v (vs ! k))) vs)"
      using k by (metis (mono_tags, lifting) image_eqI list.set_map nth_mem)
    from softmax_dist_all_NaN[OF this[unfolded k_def]] show ?thesis by blast
  qed
qed

text \<open>
  Claim C9. For an anchor that is emitted (so it passed the objectness filter), the
  class \<open>k\<close> whose label and score the detection carries is the first maximal entry
  of the softmax distribution of the anchor's class logits: no entry exceeds it, every
  earlier entry is strictly smaller, and, unless it is a NaN, it is at least every
  entry. The score is the product, in \<open>float\<close>, of that entry and the objectness.
\<close>

theorem top_class_first_maximum:
  assumes "tensor_length \<le> length t"
    and "cx < COL_COUNT" "cy < ROW_COUNT" "b < BOXES_PER_CELL"
    and "anchor_box t threshold cy cx b = Inr (Some w)"
  shows "\<exists>k<CLASS_COUNT.
           (\<forall>j<CLASS_COUNT. \<not> flt (softmax_dist (class_logits t cx cy b) ! k)
                                  (softmax_dist (class_logits t cx cy b) ! j))
         \<and> (\<forall>j<k. flt (softmax_dist (class_logits t cx cy b) ! j)
                       (softmax_dist (class_logits t cx cy b) ! k))
         \<and> (softmax_dist (class_logits t cx cy b) ! k \<noteq> NaN \<longrightarrow>
              (\<forall>j<CLASS_COUNT. fle (softmax_dist (class_logits t cx cy b) ! j)
                                   (softmax_dist (class_logits t cx cy b) ! k)))
         \<and> box_label w = labels ! k
         \<and> box_confidence w =
               fmul (softmax_dist (class_logits t cx cy b) ! k) (spec_objectness t cx cy b)
         \<and> \<not> flt (spec_objectness t cx cy b) threshold"
proof -
  define dist where "dist = softmax_dist (class_logits t cx cy b)"
  define k where "k = max_element dist"
  have ld: "length dist = CLASS_COUNT"
    by (simp add: dist_def length_softmax_dist length_class_logits)
  then have ne: "dist \<noteq> []" by (auto simp: CLASS_COUNT_def)
  have cne: "class_logits t cx cy b \<noteq> []"
    using length_class_logits[of t cx cy b] by (auto simp: CLASS_COUNT_def)
  have k: "k < CLASS_COUNT" using max_element_less[OF ne] by (simp add: k_def ld)
  have a: "\<forall>j<CLASS_COUNT. \<not> flt (dist ! k) (dist ! j)"
    using max_element_no_exceed[OF ne] by (simp add: k_def ld)
  have bc: "(\<forall>j<k. flt (dist ! j) (dist ! k))
          \<and> (dist ! k \<noteq> NaN \<longrightarrow> (\<forall>j<CLASS_COUNT. fle (dist ! j) (dist ! k)))"
  proof -
    from softmax_dist_cases[OF cne]
    consider "\<forall>x\<in>set dist. unit_float x" | "\<forall>x\<in>set dist. x = NaN"
      unfolding dist_def by blast
    then show ?thesis
    proof cases
      case 1
      then have "\<forall>v\<in>set dist. v \<noteq> NaN" by (auto dest: unit_float_not_NaN)
      from max_element_spec[OF ne this] show ?thesis by (simp add: k_def ld)
    next
      case 2
      then have "k = 0" unfolding k_def by (rule max_element_all_NaN)
      moreover have "dist ! k = NaN" using 2 k ld by simp
      ultimately show ?thesis by simp
    qed
  qed
  from a bc k anchor_box_Some[OF assms]
  show ?thesis unfolding dist_def[symmetric] k_def[symmetric] by blast
qed

theorem top_class_first_maximum_witness:
  "\<exists>w. anchor_box ((replicate 21125 (Fin 0))[676 := Fin 30, 845 := Fin 200]) (Fin 1) 0 0 0
          = Inr (Some w)
       \<and> box_label w = ''aeroplane'' \<and> box_confidence w = Fin 1"
proof -
  define t where "t = (replicate 21125 (Fin 0))[676 := Fin 30, 845 := Fin 200]"
  have len: "tensor_length \<le> length t"
    by (simp add: t_def tensor_length_def ROW_COUNT_def COL_COUNT_def CHANNEL_COUNT_def)
  have rng: "(0::nat) < COL_COUNT" "(0::nat) < ROW_COUNT" "(0::nat) < BOXES_PER_CELL"
    by (simp_all add: ROW_COUNT_def COL_COUNT_def BOXES_PER_CELL_def)
  obtain w where "spec_detection t (Fin 1) 0 0 0 = Some w"
    using one_hot_detection unfolding t_def by blast
  then have em: "anchor_box t (Fin 1) 0 0 0 = Inr (Some w)"
    using anchor_box_valid[OF len rng, of "Fin 1"] by simp
  have dist: "softmax_dist (class_logits t 0 0 0) = Fin 1 # replicate 19 (Fin 0)"
    unfolding t_def one_hot_class_logits by (rule softmax_one_hot)
  have obj: "spec_objectness t 0 0 0 = Fin 1"
    by (simp add: t_def spec_objectness_def tensor_at_def ROW_COUNT_def COL_COUNT_def Sigmoid_30)
  from top_class_first_maximum[OF len rng em]
  obtain k where k: "k < CLASS_COUNT"
    "\<forall>j<CLASS_COUNT. \<not> flt ((Fin 1 # replicate 19 (Fin 0)) ! k) ((Fin 1 # replicate 19 (Fin 0)) ! j)"
    "box_label w = labels ! k"
    "box_confidence w = fmul ((Fin 1 # replicate 19 (Fin 0)) ! k) (Fin 1)"
    unfolding dist obj by blast
  have "k = 0"
  proof (rule ccontr)
    assume "k \<noteq> 0"
    then have "(Fin 1 # replicate 19 (Fin 0)) ! k = Fin 0"
      using k(1) by (cases k) (simp_all add: CLASS_COUNT_def)
    moreover have "(0::nat) < CLASS_COUNT" by (simp add: CLASS_COUNT_def)
    with k(2)
    have "\<not> flt ((Fin 1 # replicate 19 (Fin 0)) ! k) ((Fin 1 # replicate 19 (Fin 0)) ! 0)"
      by blast
    ultimately show False by simp
  qed
  then have "box_label w = ''aeroplane''" "box_confidence w = Fin 1"
    using k(3,4) by (simp_all add: labels_def fmul_def)
  with em show ?thesis unfolding t_def by blast
qed

section \<open>Computing roundings\<close>

lemma rnd32_compute:
  assumes lo: "2 powi E \<le> \<bar>x\<bar>" and hi: "\<bar>x\<bar> < 2 powi (E + 1)"
    and E: "-126 \<le> E" "E \<le> 126"
    and n: "\<bar>x / 2 powi (E - 23) - of_int n\<bar> < 1/2"
  shows "rnd32 x = Fin (of_int n * 2 powi (E - 23))"
proof -
  have "0 < (2::real) powi E" by simp
  then have "0 < \<bar>x\<bar>" using lo by linarith
  then have x0: "x \<noteq> 0" by auto
  have "\<lfloor>log 2 \<bar>x\<bar>\<rfloor> = E" using x0 lo hi by (intro floor_log2_eq) simp_all
  then have ulp: "E - 23 = ulp_exp 24 (-149) x" using E by (simp add: ulp_exp_def)
  have rr: "round_real 24 (-149) x = of_int n * 2 powi (E - 23)"
    by (rule round_real_eq[OF x0 ulp n])
  define q :: real where "q = 2 powi (E - 23)"
  have q: "0 < q" by (simp add: q_def)
  have "\<bar>x - of_int n * q\<bar> < q / 2"
  proof -
    have "(x / q - of_int n) * q = x - of_int n * q" using q by (simp add: field_simps)
    then have "\<bar>x - of_int n * q\<bar> = \<bar>x / q - of_int n\<bar> * q"
      using q abs_mult_pos[of q "x / q - of_int n"] by simp
    also have "\<dots> < (1/2) * q" using n q unfolding q_def by (intro mult_strict_right_mono) simp_all
    finally show ?thesis by simp
  qed
  then have "\<bar>of_int n * q\<bar> < \<bar>x\<bar> + q / 2" by linarith
  also have "\<dots> < 2 powi (E + 1) + 2 powi (E + 1)"
  proof -
    have "q \<le> 2 powi (E + 1)" unfolding q_def by (rule p2_mono) simp
    then show ?thesis using hi q by linarith
  qed
  also have "\<dots> = 2 powi (E + 2)" by (simp add: p2_add)
  also have "\<dots> \<le> 2 powi 128" using E by (intro p2_mono) simp
  finally have "\<bar>of_int n * q\<bar> < 2 powi 128" .
  then show ?thesis
    unfolding rnd32_def fround_def Let_def rr q_def[symmetric] by (auto simp: abs_if split: if_splits)
qed

lemma rnd32_frac:
  assumes "\<bar>m\<bar> < 2 ^ 24" "k \<le> 149"
  shows "rnd32 (of_int m / 2 ^ k) = Fin (of_int m / 2 ^ k)"
proof (rule rnd32_exact)
  have eq: "real_of_int m / 2 ^ k = of_int m * 2 powi (- int k)"
    by (simp add: power_int_minus divide_inverse)
  show "representable 24 (-149) (of_int m / 2 ^ k)"
    unfolding eq representable_def using assms
    by (intro exI[of _ m] exI[of _ "- int k"]) simp
  have "\<bar>real_of_int m\<bar> < 2 ^ 24"
    using assms(1) by (metis of_int_abs of_int_less_numeral_power_cancel_iff)
  moreover have "\<bar>real_of_int m / 2 ^ k\<bar> \<le> \<bar>real_of_int m\<bar>"
    by (simp add: divide_le_eq mult_le_cancel_left1)
  ultimately show "\<bar>real_of_int m / 2 ^ k\<bar> < 2 ^ 128" by simp
qed

lemma anchor_0: "rnd32 1.08 = Fin (9059697 / 8388608)"
  using rnd32_compute[of 0 "1.08" 9059697] by simp

lemma anchor_1: "rnd32 1.19 = Fin (2495611 / 2097152)"
  using rnd32_compute[of 0 "1.19" 9982444] by simp

lemma rnd32_20th: "rnd32 (1 / 20) = Fin (13421773 / 268435456)"
  using rnd32_compute[of "-5" "1/20" 13421773] by (simp add: power_int_minus)


section \<open>Equal logits\<close>

lemma rnd64_nat:
  assumes "n < 2 ^ 53"
  shows "rnd64 (real n) = Fin (real n)"
proof -
  have "representable 53 (-1074) (of_int (int n))"
    using assms by (intro representable_int) simp_all
  moreover have "\<bar>real n\<bar> < 2 powi 1024"
  proof -
    have "real n < 2 ^ 53" using assms by (metis of_nat_less_numeral_power_cancel_iff)
    also have "\<dots> = (2::real) powi 53" by simp
    also have "\<dots> < 2 powi 1024" by (rule p2_less) simp
    finally show ?thesis by simp
  qed
  ultimately have "fround 53 (-1074) 1024 (real n) = Fin (real n)"
    by (intro fround_exact) simp_all
  then show ?thesis by (simp add: rnd64_def)
qed

lemma accumulate_ones:
  assumes "k + n < 2 ^ 53"
  shows "foldl (\<lambda>acc x. dadd acc (f2d x)) (Fin (real k)) (replicate n (Fin 1)) = Fin (real (k + n))"
  using assms
proof (induction n arbitrary: k)
  case 0
  then show ?case by simp
next
  case (Suc n)
  have "dadd (Fin (real k)) (f2d (Fin 1)) = rnd64 (real (Suc k))"
    by (simp add: dadd_def add.commute)
  also have "\<dots> = Fin (real (Suc k))" using Suc.prems by (intro rnd64_nat) simp
  finally have st: "dadd (Fin (real k)) (f2d (Fin 1)) = Fin (real (Suc k))" .
  have "foldl (\<lambda>acc x. dadd acc (f2d x)) (Fin (real (Suc k))) (replicate n (Fin 1))
        = Fin (real (Suc k + n))"
    using Suc.prems by (intro Suc.IH) simp
  then show ?case by (simp add: st del: f2d.simps of_nat_Suc)
qed

lemma max_loop_same: "max_loop (replicate n (Fin a)) i l (Fin a) = l"
  by (induction n arbitrary: i) simp_all

lemma softmax_uniform:
  assumes "0 < n" "n < 2 ^ 53"
  shows "softmax_dist (replicate n (Fin a)) = replicate n (fdiv (Fin 1) (rnd32 (real n)))"
proof -
  obtain n' where n': "n = Suc n'" using assms(1) by (cases n) auto
  have m: "replicate n (Fin a) ! max_element (replicate n (Fin a)) = Fin a"
    by (simp add: n' max_element_def max_loop_same)
  have es: "map (\<lambda>v. expf (fsub v (Fin a))) (replicate n (Fin a)) = replicate n (Fin 1)"
    by (simp add: expf_fsub_self del: expf.simps)
  have "foldl (\<lambda>acc x. dadd acc (f2d x)) (Fin (real 0)) (replicate n (Fin 1)) = Fin (real (0 + n))"
    using assms(2) by (intro accumulate_ones) simp
  then have acc: "foldl (\<lambda>acc x. dadd acc (f2d x)) (Fin 0) (replicate n (Fin 1)) = Fin (real n)"
    by simp
  show ?thesis
    unfolding softmax_dist_def Let_def m es acc by simp
qed

lemma softmax_uniform_20:
  "softmax_dist (replicate 20 (Fin a)) = replicate 20 (Fin (13421773 / 268435456))"
proof -
  have "rnd32 (real 20) = Fin (real 20)" by (rule rnd32_nat) simp
  then have "fdiv (Fin 1) (rnd32 (real 20)) = Fin (13421773 / 268435456)"
    by (simp add: fdiv_def rnd32_20th)
  then show ?thesis using softmax_uniform[of 20 a] by simp
qed

section \<open>The geometry of a detection\<close>

lemma rnd32_16 [simp]: "rnd32 16 = Fin 16"
  using rnd32_nat[of 16] by simp

lemma rnd32_32 [simp]: "rnd32 32 = Fin 32"
  using rnd32_nat[of 32] by simp

lemma anchors_0: "anchors ! 0 = Fin (9059697 / 8388608)"
  by (simp only: anchors_def list.map nth_Cons_0 anchor_0)

lemma anchors_1: "anchors ! 1 = Fin (2495611 / 2097152)"
  by (simp only: anchors_def list.map One_nat_def nth_Cons_Suc nth_Cons_0 anchor_1)

lemma center_zero: "fmul (fadd (i2f 0) (Sigmoid (Fin 0))) (Fin 32) = Fin 16"
  by (simp add: i2f_def Sigmoid_0 fadd_def fmul_def)

lemma width_zero:
  "fmul (fmul (expf (Fin 0)) (Fin 32)) (Fin (9059697 / 8388608)) = Fin (9059697 / 262144)"
  using rnd32_frac[of 9059697 18] by (simp add: fmul_def)

lemma height_zero:
  "fmul (fmul (expf (Fin 0)) (Fin 32)) (Fin (2495611 / 2097152)) = Fin (2495611 / 65536)"
  using rnd32_frac[of 2495611 16] by (simp add: fmul_def)

lemma x_zero:
  "fsub (Fin 16) (fdiv (Fin (9059697 / 262144)) (Fin 2)) = Fin (- (671089 / 524288))"
  using rnd32_frac[of 9059697 19] rnd32_frac[of "- 671089" 19] by (simp add: fsub_def fdiv_def)

lemma y_zero:
  "fsub (Fin 16) (fdiv (Fin (2495611 / 65536)) (Fin 2)) = Fin (- (398459 / 131072))"
  using rnd32_frac[of 2495611 17] rnd32_frac[of "- 398459" 17] by (simp add: fsub_def fdiv_def)

lemma score_zero: "fmul (Fin (13421773 / 268435456)) (Fin (1 / 2)) = Fin (13421773 / 536870912)"
  using rnd32_frac[of 13421773 29] by (simp add: fmul_def)

lemma geometry_zero:
  assumes "tensor_at t 0 0 0 = Fin 0" "tensor_at t 0 0 1 = Fin 0"
    "tensor_at t 0 0 2 = Fin 0" "tensor_at t 0 0 3 = Fin 0"
  shows "spec_centerX t 0 0 0 = Fin 16" "spec_centerY t 0 0 0 = Fin 16"
    "spec_width t 0 0 0 = Fin (9059697 / 262144)"
    "spec_height t 0 0 0 = Fin (2495611 / 65536)"
    "fsub (spec_centerX t 0 0 0) (fdiv (spec_width t 0 0 0) (Fin 2)) = Fin (- (671089 / 524288))"
    "fsub (spec_centerY t 0 0 0) (fdiv (spec_height t 0 0 0) (Fin 2)) = Fin (- (398459 / 131072))"
proof -
  show cx: "spec_centerX t 0 0 0 = Fin 16"
    unfolding spec_centerX_def CELL_WIDTH_def by (simp only: mult_0 assms center_zero)
  show cy: "spec_centerY t 0 0 0 = Fin 16"
    unfolding spec_centerY_def CELL_HEIGHT_def by (simp only: mult_0 add_0 assms center_zero)
  show w: "spec_width t 0 0 0 = Fin (9059697 / 262144)"
    unfolding spec_width_def CELL_WIDTH_def
    by (simp only: mult_0 mult_0_right add_0 assms anchors_0 width_zero)
  show h: "spec_height t 0 0 0 = Fin (2495611 / 65536)"
    unfolding spec_height_def CELL_HEIGHT_def
    by (simp only: mult_0 mult_0_right add_0 assms anchors_1 height_zero)
  show "fsub (spec_centerX t 0 0 0) (fdiv (spec_width t 0 0 0) (Fin 2)) = Fin (- (671089 / 524288))"
    unfolding cx w by (rule x_zero)
  show "fsub (spec_centerY t 0 0 0) (fdiv (spec_height t 0 0 0) (Fin 2)) = Fin (- (398459 / 131072))"
    unfolding cy h by (rule y_zero)
qed

lemma spec_detection_geometry:
  assumes "spec_detection t threshold cy cx b = Some w"
  shows "box_width w = spec_width t cx cy b \<and> box_height w = spec_height t cx cy b
      \<and> box_x w = fsub (spec_centerX t cx cy b) (fdiv (spec_width t cx cy b) (Fin 2))
      \<and> box_y w = fsub (spec_centerY t cx cy b) (fdiv (spec_height t cx cy b) (Fin 2))"
  using assms by (auto simp: spec_detection_def Let_def split: if_splits)

lemma spec_decode_anchor:
  assumes "w \<in> set (spec_decode t threshold)"
  shows "\<exists>cy<ROW_COUNT. \<exists>cx<COL_COUNT. \<exists>b<BOXES_PER_CELL.
           spec_detection t threshold cy cx b = Some w"
proof -
  from assms obtain cy cx b where "(cy, cx, b) \<in> set scan_order"
    and "spec_detection t threshold cy cx b = Some w"
    unfolding spec_decode_def set_map_filter by auto
  then show ?thesis unfolding set_scan_order by blast
qed

lemma tensor_at_zeros:
  assumes "c * 169 + cy * 13 + cx < n"
  shows "tensor_at (replicate n (Fin 0)) cx cy c = Fin 0"
  using assms by (simp add: tensor_at_def ROW_COUNT_def COL_COUNT_def)

lemma class_logits_zeros: "class_logits (replicate 21125 (Fin 0)) 0 0 0 = replicate 20 (Fin 0)"
proof -
  have "map (\<lambda>i. tensor_at (replicate 21125 (Fin 0)) 0 0 (0 * (20 + 5) + 5 + i)) [0..<20] =
        map (\<lambda>i. Fin 0) [0..<20]"
    by (rule map_cong[OF refl]) (simp add: tensor_at_zeros)
  then show ?thesis
    unfolding class_logits_def CLASS_COUNT_def by (simp only: map_replicate_const length_upt) simp
qed

lemma max_element_same: "max_element (replicate (Suc n) (Fin a)) = 0"
  by (simp add: max_element_def max_loop_same)

lemma zero_tensor_detection:
  "spec_detection (replicate 21125 (Fin 0)) (Fin 0) 0 0 0 =
     Some \<lparr> box_label = ''aeroplane'',
            box_x = Fin (- (671089 / 524288)), box_y = Fin (- (398459 / 131072)),
            box_width = Fin (9059697 / 262144), box_height = Fin (2495611 / 65536),
            box_confidence = Fin (13421773 / 536870912) \<rparr>"
proof -
  have o: "spec_objectness (replicate 21125 (Fin 0)) 0 0 0 = Fin (1/2)"
    by (rule spec_objectness_zero) simp
  have m: "max_element (replicate 20 (Fin (13421773 / 268435456))) = 0"
    using max_element_same[of 19] by simp
  have g: "tensor_at (replicate 21125 (Fin 0)) 0 0 0 = Fin 0"
    "tensor_at (replicate 21125 (Fin 0)) 0 0 1 = Fin 0"
    "tensor_at (replicate 21125 (Fin 0)) 0 0 2 = Fin 0"
    "tensor_at (replicate 21125 (Fin 0)) 0 0 3 = Fin 0"
    by (simp_all add: tensor_at_zeros)
  show ?thesis
    unfolding spec_detection_def Let_def o class_logits_zeros softmax_uniform_20 m
      geometry_zero[OF g]
    by (simp add: score_zero labels_def x_zero y_zero)
qed

lemma zero_tensor_anchor:
  "anchor_box (replicate 21125 (Fin 0)) (Fin 0) 0 0 0 =
     Inr (Some \<lparr> box_label = ''aeroplane'',
            box_x = Fin (- (671089 / 524288)), box_y = Fin (- (398459 / 131072)),
            box_width = Fin (9059697 / 262144), box_height = Fin (2495611 / 65536),
            box_confidence = Fin (13421773 / 536870912) \<rparr>)"
proof -
  have "tensor_length \<le> length (replicate 21125 (Fin 0))"
    by (simp add: tensor_length_def ROW_COUNT_def COL_COUNT_def CHANNEL_COUNT_def)
  from anchor_box_valid[OF this, of 0 0 0 "Fin 0"] show ?thesis
    by (simp add: zero_tensor_detection ROW_COUNT_def COL_COUNT_def BOXES_PER_CELL_def)
qed

text \<open>
  Claim C6, as the code has it. The detection emitted for cell \<open>(cx, cy)\<close> and
  anchor \<open>b\<close> has the geometry
  \<open>centerX = (cx + sigmoid(tx)) * 32\<close>, \<open>centerY = (cy + sigmoid(ty)) * 32\<close>,
  \<open>width = exp(tw) * 32 * anchors[2b]\<close>, \<open>height = exp(th) * 32 * anchors[2b+1]\<close>,
  \<open>x = centerX - width/2\<close>, \<open>y = centerY - height/2\<close>, each operation in \<open>float\<close>, and
  every detection of the output is the detection of such a cell and anchor. The anchor
  table is fixed in the code: anchor 0 has the scales \<open>1.08f\<close> and \<open>1.19f\<close>, so in cell
  \<open>(0, 0)\<close> with raw values \<open>tx = ty = tw = th = 0\<close> the centre is \<open>(16, 16)\<close>, the
  width is \<open>32 * 1.08f\<close> (about 34.56), the height \<open>32 * 1.19f\<close> (about 38.08), and
  the corner is at about \<open>(-1.28, -3.04)\<close>.
\<close>

theorem detection_geometry:
  "(tensor_length \<le> length t \<and> cx < COL_COUNT \<and> cy < ROW_COUNT \<and> b < BOXES_PER_CELL
      \<and> anchor_box t threshold cy cx b = Inr (Some w)
    \<longrightarrow> box_width w = spec_width t cx cy b \<and> box_height w = spec_height t cx cy b
      \<and> box_x w = fsub (spec_centerX t cx cy b) (fdiv (spec_width t cx cy b) (Fin 2))
      \<and> box_y w = fsub (spec_centerY t cx cy b) (fdiv (spec_height t cx cy b) (Fin 2)))
   \<and> (tensor_length \<le> length t \<and> GetRecognizedObjects t threshold = Inr boxes
      \<and> w' \<in> set boxes
    \<longrightarrow> (\<exists>cy<ROW_COUNT. \<exists>cx<COL_COUNT. \<exists>b<BOXES_PER_CELL.
            anchor_box t threshold cy cx b = Inr (Some w')))
   \<and> (tensor_at t' 0 0 0 = Fin 0 \<and> tensor_at t' 0 0 1 = Fin 0
      \<and> tensor_at t' 0 0 2 = Fin 0 \<and> tensor_at t' 0 0 3 = Fin 0
    \<longrightarrow> spec_centerX t' 0 0 0 = Fin 16 \<and> spec_centerY t' 0 0 0 = Fin 16
      \<and> spec_width t' 0 0 0 = Fin (9059697 / 262144)
      \<and> spec_height t' 0 0 0 = Fin (2495611 / 65536)
      \<and> fsub (spec_centerX t' 0 0 0) (fdiv (spec_width t' 0 0 0) (Fin 2))
          = Fin (- (671089 / 524288))
      \<and> fsub (spec_centerY t' 0 0 0) (fdiv (spec_height t' 0 0 0) (Fin 2))
          = Fin (- (398459 / 131072)))"
proof (intro conjI impI)
  assume a: "tensor_length \<le> length t \<and> cx < COL_COUNT \<and> cy < ROW_COUNT
      \<and> b < BOXES_PER_CELL \<and> anchor_box t threshold cy cx b = Inr (Some w)"
  then have sd: "spec_detection t threshold cy cx b = Some w"
    using anchor_box_valid[of t cx cy b threshold] by simp
  from spec_detection_geometry[OF sd]
  show "box_width w = spec_width t cx cy b" "box_height w = spec_height t cx cy b"
    "box_x w = fsub (spec_centerX t cx cy b) (fdiv (spec_width t cx cy b) (Fin 2))"
    "box_y w = fsub (spec_centerY t cx cy b) (fdiv (spec_height t cx cy b) (Fin 2))"
    by simp_all
next
  assume a: "tensor_length \<le> length t \<and> GetRecognizedObjects t threshold = Inr boxes
             \<and> w' \<in> set boxes"
  then have len: "tensor_length \<le> length t" by simp
  from a have "w' \<in> set (spec_decode t threshold)"
    using GetRecognizedObjects_valid[of t threshold] by auto
  from spec_decode_anchor[OF this] obtain cy cx b
    where r: "cy < ROW_COUNT" "cx < COL_COUNT" "b < BOXES_PER_CELL"
      and sd: "spec_detection t threshold cy cx b = Some w'" by blast
  have "anchor_box t threshold cy cx b = Inr (Some w')"
    using anchor_box_valid[OF len r(2) r(1) r(3), of threshold] sd by simp
  with r show "\<exists>cy<ROW_COUNT. \<exists>cx<COL_COUNT. \<exists>b<BOXES_PER_CELL.
            anchor_box t threshold cy cx b = Inr (Some w')"
    by blast
next
  assume "tensor_at t' 0 0 0 = Fin 0 \<and> tensor_at t' 0 0 1 = Fin 0
      \<and> tensor_at t' 0 0 2 = Fin 0 \<and> tensor_at t' 0 0 3 = Fin 0"
  then have g: "tensor_at t' 0 0 0 = Fin 0" "tensor_at t' 0 0 1 = Fin 0"
      "tensor_at t' 0 0 2 = Fin 0" "tensor_at t' 0 0 3 = Fin 0" by simp_all
  show "spec_centerX t' 0 0 0 = Fin 16" "spec_centerY t' 0 0 0 = Fin 16"
    "spec_width t' 0 0 0 = Fin (9059697 / 262144)"
    "spec_height t' 0 0 0 = Fin (2495611 / 65536)"
    "fsub (spec_centerX t' 0 0 0) (fdiv (spec_width t' 0 0 0) (Fin 2)) = Fin (- (671089 / 524288))"
    "fsub (spec_centerY t' 0 0 0) (fdiv (spec_height t' 0 0 0) (Fin 2)) = Fin (- (398459 / 131072))"
    by (rule geometry_zero[OF g])+
qed

theorem detection_geometry_witness:
  "tensor_length \<le> length (replicate 21125 (Fin 0))
   \<and> anchor_box (replicate 21125 (Fin 0)) (Fin 0) 0 0 0 =
     Inr (Some \<lparr> box_label = ''aeroplane'',
            box_x = Fin (- (671089 / 524288)), box_y = Fin (- (398459 / 131072)),
            box_width = Fin (9059697 / 262144), box_height = Fin (2495611 / 65536),
            box_confidence = Fin (13421773 / 536870912) \<rparr>)
   \<and> spec_width (replicate 21125 (Fin 0)) 0 0 0 = Fin (9059697 / 262144)
   \<and> spec_height (replicate 21125 (Fin 0)) 0 0 0 = Fin (2495611 / 65536)
   \<and> spec_centerX (replicate 21125 (Fin 0)) 0 0 0 = Fin 16
   \<and> spec_centerY (replicate 21125 (Fin 0)) 0 0 0 = Fin 16"
proof -
  define w0 where "w0 = \<lparr> box_label = ''aeroplane'',
            box_x = Fin (- (671089 / 524288)), box_y = Fin (- (398459 / 131072)),
            box_width = Fin (9059697 / 262144), box_height = Fin (2495611 / 65536),
            box_confidence = Fin (13421773 / 536870912) \<rparr>"
  have len: "tensor_length \<le> length (replicate 21125 (Fin 0))"
    by (simp add: tensor_length_def ROW_COUNT_def COL_COUNT_def CHANNEL_COUNT_def)
  have rng: "(0::nat) < COL_COUNT" "(0::nat) < ROW_COUNT" "(0::nat) < BOXES_PER_CELL"
    by (simp_all add: ROW_COUNT_def COL_COUNT_def BOXES_PER_CELL_def)
  have em: "anchor_box (replicate 21125 (Fin 0)) (Fin 0) 0 0 0 = Inr (Some w0)"
    unfolding w0_def by (rule zero_tensor_anchor)
  have g: "tensor_at (replicate 21125 (Fin 0)) 0 0 0 = Fin 0"
    "tensor_at (replicate 21125 (Fin 0)) 0 0 1 = Fin 0"
    "tensor_at (replicate 21125 (Fin 0)) 0 0 2 = Fin 0"
    "tensor_at (replicate 21125 (Fin 0)) 0 0 3 = Fin 0"
    by (simp_all add: tensor_at_zeros)
  from detection_geometry[of "replicate 21125 (Fin 0)" 0 0 0 "Fin 0" w0 _ _
      "replicate 21125 (Fin 0)"] len rng em g
  have "box_width w0 = spec_width (replicate 21125 (Fin 0)) 0 0 0"
    "box_height w0 = spec_height (replicate 21125 (Fin 0)) 0 0 0"
    "spec_centerX (replicate 21125 (Fin 0)) 0 0 0 = Fin 16"
    "spec_centerY (replicate 21125 (Fin 0)) 0 0 0 = Fin 16"
    by blast+
  then show ?thesis using len em unfolding w0_def by simp
qed

text \<open>
  The scenario of claim C6 as stated (\<open>x = y = 0\<close>, \<open>width = height = 32\<close>, which needs
  anchor scales of 1.0) does not hold of the code: at threshold 0 the first anchor of a
  tensor of zeros is emitted as the following detection.
\<close>

theorem detection_geometry_counterexample:
  "anchor_box (replicate 21125 (Fin 0)) (Fin 0) 0 0 0 =
     Inr (Some \<lparr> box_label = ''aeroplane'',
            box_x = Fin (- (671089 / 524288)), box_y = Fin (- (398459 / 131072)),
            box_width = Fin (9059697 / 262144), box_height = Fin (2495611 / 65536),
            box_confidence = Fin (13421773 / 536870912) \<rparr>)
   \<and> Fin (9059697 / 262144) \<noteq> Fin 32 \<and> Fin (- (671089 / 524288)) \<noteq> Fin 0"
  using zero_tensor_anchor by simp

section \<open>The rounding error\<close>

lemma round_err:
  "\<bar>round_real p emin x - x\<bar> \<le> 2 powi (ulp_exp p emin x) / 2"
proof (cases "x = 0")
  case True
  then show ?thesis by (simp add: round_real_def)
next
  case False
  define q where "q = (2::real) powi ulp_exp p emin x"
  have q: "0 < q" by (simp add: q_def)
  have "\<bar>x / q - of_int (rne (x / q))\<bar> \<le> 1/2" by (rule rne_err)
  then have "\<bar>x / q - of_int (rne (x / q))\<bar> * q \<le> 1/2 * q"
    using q by (intro mult_right_mono) simp_all
  moreover have "\<bar>x / q - of_int (rne (x / q))\<bar> * q = \<bar>(x / q - of_int (rne (x / q))) * q\<bar>"
    using q by (simp add: abs_mult)
  moreover have "(x / q - of_int (rne (x / q))) * q = x - of_int (rne (x / q)) * q"
    using q by (simp add: left_diff_distrib)
  ultimately have "\<bar>x - of_int (rne (x / q)) * q\<bar> \<le> q / 2" by simp
  then show ?thesis using False by (simp add: round_real_def q_def abs_minus_commute)
qed

lemma round_rel:
  assumes p: "0 < p" and big: "2 powi (emin + int p - 1) \<le> \<bar>x\<bar>"
  shows "\<bar>round_real p emin x - x\<bar> \<le> 2 powi (- int p) * \<bar>x\<bar>"
proof -
  have pos: "0 < \<bar>x\<bar>"
  proof -
    have "(0::real) < 2 powi (emin + int p - 1)" by simp
    then show ?thesis using big by linarith
  qed
  define k where "k = \<lfloor>log 2 \<bar>x\<bar>\<rfloor>"
  have k1: "2 powi k \<le> \<bar>x\<bar>" unfolding k_def by (rule floor_log2_bounds(1)[OF pos])
  have k2: "emin + int p - 1 \<le> k" unfolding k_def by (rule floor_log2_ge[OF big])
  have ue: "ulp_exp p emin x = k - (int p - 1)"
    using k2 by (simp add: ulp_exp_def k_def)
  have e: "k - (int p - 1) = (k + (- int p)) + 1" by simp
  have "(2::real) powi (k - (int p - 1)) = 2 powi k * 2 powi (- int p) * 2"
    unfolding e p2_add by simp
  then have "(2::real) powi (k - (int p - 1)) / 2 = 2 powi (- int p) * 2 powi k" by simp
  moreover have "2 powi (- int p) * 2 powi k \<le> 2 powi (- int p) * \<bar>x\<bar>"
    using k1 by (intro mult_left_mono) simp_all
  ultimately show ?thesis using round_err[of p emin x] unfolding ue by linarith
qed

lemma round_abs:
  assumes p: "0 < p"
  shows "\<bar>round_real p emin x - x\<bar> \<le> 2 powi (- int p) * \<bar>x\<bar> + 2 powi (emin - 1)"
proof (cases "2 powi (emin + int p - 1) \<le> \<bar>x\<bar>")
  case True
  have "(0::real) \<le> 2 powi (emin - 1)" by simp
  then show ?thesis using round_rel[OF p True] by linarith
next
  case False
  have ue: "ulp_exp p emin x = emin \<or> x = 0"
  proof (cases "x = 0")
    case True then show ?thesis by simp
  next
    case x: False
    then have pos: "0 < \<bar>x\<bar>" by simp
    have "2 powi \<lfloor>log 2 \<bar>x\<bar>\<rfloor> \<le> \<bar>x\<bar>" by (rule floor_log2_bounds(1)[OF pos])
    then have "(2::real) powi \<lfloor>log 2 \<bar>x\<bar>\<rfloor> < 2 powi (emin + int p - 1)" using False by linarith
    then have "\<lfloor>log 2 \<bar>x\<bar>\<rfloor> < emin + int p - 1" by (rule p2_less_cancel)
    then show ?thesis by (simp add: ulp_exp_def)
  qed
  have h: "(2::real) powi emin / 2 = 2 powi (emin - 1)" by (simp add: power_int_diff)
  have nn: "0 \<le> 2 powi (- int p) * \<bar>x\<bar>" by simp
  from ue show ?thesis
  proof
    assume u: "ulp_exp p emin x = emin"
    have "\<bar>round_real p emin x - x\<bar> \<le> 2 powi emin / 2"
      using round_err[of p emin x] unfolding u .
    with h nn show ?thesis by linarith
  next
    assume "x = 0"
    then show ?thesis by (simp add: round_real_def)
  qed
qed


lemma fround_rel:
  assumes p: "0 < p" and lo: "representable p emin lo" "2 powi (emin + int p - 1) \<le> lo" "lo \<le> x"
    and hi: "x \<le> 2 powi (emax - 1)" "emin \<le> emax - 1"
  shows "\<exists>r. fround p emin emax x = Fin r \<and> \<bar>r - x\<bar> \<le> 2 powi (- int p) * x \<and> lo \<le> r"
proof -
  define y where "y = round_real p emin x"
  have lo_pos: "0 < lo"
  proof -
    have "(0::real) < 2 powi (emin + int p - 1)" by simp
    then show ?thesis using lo(2) by linarith
  qed
  then have x: "0 < x" "\<bar>x\<bar> = x" using lo(3) by simp_all
  have y1: "lo \<le> y" unfolding y_def by (rule round_lower[OF p lo(1) lo(3)])
  have y2: "y \<le> 2 powi (emax - 1)"
    unfolding y_def by (rule round_upper[OF p representable_p2[OF p hi(2)] hi(1)])
  have "(2::real) powi (emax - 1) < 2 powi emax" by (rule p2_less) simp
  then have y3: "y < 2 powi emax" using y2 by linarith
  have "(0::real) < 2 powi emax" by simp
  then have y4: "\<not> y \<le> - (2 powi emax)" using y1 lo_pos by linarith
  have fr: "fround p emin emax x = Fin y"
    using y3 y4 by (simp add: fround_def Let_def flip: y_def)
  have "2 powi (emin + int p - 1) \<le> \<bar>x\<bar>" using lo(2,3) x(2) by linarith
  from round_rel[OF p this] have "\<bar>y - x\<bar> \<le> 2 powi (- int p) * x"
    unfolding y_def x(2) .
  with fr y1 show ?thesis by blast
qed

lemma rnd64_rel:
  assumes "representable 53 (-1074) lo" "2 powi (-1022) \<le> lo" "lo \<le> x" "x \<le> 2 powi 1023"
  shows "\<exists>r. rnd64 x = Fin r \<and> \<bar>r - x\<bar> \<le> 2 powi (-53) * x \<and> lo \<le> r"
  using fround_rel[of 53 "-1074" lo x 1024] assms unfolding rnd64_def by simp

lemma rnd32_rel:
  assumes "representable 24 (-149) lo" "2 powi (-126) \<le> lo" "lo \<le> x" "x \<le> 2 powi 127"
  shows "\<exists>r. rnd32 x = Fin r \<and> \<bar>r - x\<bar> \<le> 2 powi (-24) * x \<and> lo \<le> r"
  using fround_rel[of 24 "-149" lo x 128] assms unfolding rnd32_def by simp

lemma rnd32_abs:
  assumes "0 \<le> x" "x \<le> 1"
  shows "\<exists>r. rnd32 x = Fin r \<and> 0 \<le> r \<and> \<bar>r - x\<bar> \<le> 2 powi (-24) * x + 2 powi (-150)"
proof -
  from rnd32_unit[OF assms] obtain r where r: "rnd32 x = Fin r" "0 \<le> r"
    by (auto simp: unit_float_def)
  have "r = round_real 24 (-149) x"
    using r(1) by (simp add: rnd32_def fround_def Let_def split: if_splits)
  moreover have "\<bar>round_real 24 (-149) x - x\<bar> \<le> 2 powi (- int 24) * \<bar>x\<bar> + 2 powi (-149 - 1)"
    by (rule round_abs) simp
  ultimately have "\<bar>r - x\<bar> \<le> 2 powi (-24) * x + 2 powi (-150)"
    using assms(1) by simp
  with r show ?thesis by blast
qed

lemma representable_pos_ge:
  assumes "representable p emin r" "0 < r"
  shows "2 powi emin \<le> r"
proof -
  from assms(1) obtain m e where me: "r = of_int m * 2 powi e" "emin \<le> e"
    by (auto simp: representable_def)
  have "0 < of_int m * (2::real) powi e" using assms(2) me(1) by simp
  moreover have "(0::real) < 2 powi e" by simp
  ultimately have "0 < (of_int m :: real)" by (simp add: zero_less_mult_iff)
  then have "0 < m" by simp
  then have "(1::real) \<le> of_int m" by simp
  then have "1 * (2::real) powi e \<le> of_int m * 2 powi e"
    by (intro mult_right_mono) simp_all
  then have a: "(2::real) powi e \<le> r" unfolding me(1) by simp
  have "(2::real) powi emin \<le> 2 powi e" by (rule p2_mono[OF me(2)])
  with a show ?thesis by linarith
qed


section \<open>The error of the accumulated sum\<close>

lemma dadd_step:
  assumes a: "a = 0 \<or> 2 powi (-149) \<le> a" "a \<le> 2 powi 1022"
    and e: "unit_float (Fin e)"
  shows "\<exists>r. dadd (Fin a) (f2d (Fin e)) = Fin r \<and> (r = 0 \<or> 2 powi (-149) \<le> r)
            \<and> \<bar>r - (a + e)\<bar> \<le> 2 powi (-53) * (a + e)"
proof -
  from e have e': "0 \<le> e" "e \<le> 1" "representable 24 (-149) e"
    by (auto simp: unit_float_def)
  have f: "f2d (Fin e) = Fin e" by (rule f2d_unit[OF e])
  have d: "dadd (Fin a) (f2d (Fin e)) = rnd64 (a + e)" unfolding f by (simp add: dadd_def)
  have q: "(0::real) < 2 powi (-149)" by (rule zero_less_power_int) simp
  have a0: "0 \<le> a" using a(1) q by linarith
  show ?thesis
  proof (cases "a + e = 0")
    case True
    then show ?thesis unfolding d by (simp only: rnd64_0) simp
  next
    case False
    have lo: "2 powi (-149) \<le> a + e"
    proof (cases "a = 0")
      case True
      then have "0 < e" using False e'(1) by simp
      from representable_pos_ge[OF e'(3) this] show ?thesis using True by simp
    next
      case False
      then show ?thesis using a(1) e'(1) by linarith
    qed
    have r1: "representable 53 (-1074) (2 powi (-149))" by (rule representable_p2) simp_all
    have r2: "(2::real) powi (-1022) \<le> 2 powi (-149)" by (rule p2_mono) simp
    have "(2::real) powi 1023 = 2 powi (1022 + 1)" by simp
    also have "\<dots> = 2 powi 1022 * 2" unfolding p2_add by simp
    finally have h: "(2::real) powi 1023 = 2 powi 1022 * 2" .
    have "(2::real) powi 0 \<le> 2 powi 1022" by (rule p2_mono) simp
    then have "(1::real) \<le> 2 powi 1022" by simp
    then have r3: "a + e \<le> 2 powi 1023" using a(2) e'(2) unfolding h by linarith
    from rnd64_rel[OF r1 r2 lo r3] show ?thesis unfolding d by blast
  qed
qed


lemma pow_up:
  fixes k :: nat
  assumes "k \<le> 2 ^ 32"
  shows "(1 + 2 powi (-53)) ^ k \<le> 1 + (2::real) powi (-20)"
proof -
  define u :: real where "u = 2 powi (-53)"
  have u: "0 \<le> u" by (simp add: u_def)
  have "real k \<le> 2 ^ 32" using assms by (metis of_nat_le_numeral_power_cancel_iff)
  then have ku: "real k * u \<le> 2 powi (-21)" by (simp add: u_def)
  have "(1 + u) ^ k \<le> exp u ^ k"
    using u by (intro power_mono exp_ge_add_one_self) simp
  also have "\<dots> = exp (real k * u)" by (simp add: exp_of_nat_mult)
  also have "\<dots> \<le> exp (2 powi (-21))" using ku by simp
  also have "\<dots> \<le> 1 + 2 powi (-21) + (2 powi (-21))\<^sup>2"
    by (rule exp_bound) simp_all
  also have "\<dots> \<le> 1 + 2 powi (-20)" by (simp add: power2_eq_square)
  finally show ?thesis by (simp only: u_def)
qed

lemma pow_lo:
  fixes k :: nat
  assumes "k \<le> 2 ^ 32"
  shows "1 - (2::real) powi (-21) \<le> (1 - 2 powi (-53)) ^ k"
proof -
  define u :: real where "u = 2 powi (-53)"
  have "real k \<le> 2 ^ 32" using assms by (metis of_nat_le_numeral_power_cancel_iff)
  then have ku: "real k * u \<le> 2 powi (-21)" by (simp add: u_def)
  have "- 1 \<le> - u" by (simp add: u_def)
  from Bernoulli_inequality[OF this, of k] have "1 - real k * u \<le> (1 - u) ^ k" by simp
  with ku have "1 - 2 powi (-21) \<le> (1 - u) ^ k" by linarith
  then show ?thesis by (simp only: u_def)
qed

lemma accumulate_err:
  fixes u :: real
  assumes u: "u = 2 powi (-53)"
    and es: "\<forall>e\<in>set es. unit_float e"
    and a: "a = 0 \<or> 2 powi (-149) \<le> a"
    and inv: "(1 - u) ^ k * s \<le> a" "a \<le> (1 + u) ^ k * s"
    and s: "0 \<le> s" "s \<le> real k" and len: "k + length es \<le> 2 ^ 32"
  shows "\<exists>r. foldl (\<lambda>acc x. dadd acc (f2d x)) (Fin a) es = Fin r
           \<and> (1 - u) ^ (k + length es) * (s + sum_list (map fval es)) \<le> r
           \<and> r \<le> (1 + u) ^ (k + length es) * (s + sum_list (map fval es))"
  using es a inv s len
proof (induction es arbitrary: a s k)
  case Nil
  then show ?case by simp
next
  case (Cons e es)
  from Cons.prems(1) obtain ev where ev: "e = Fin ev" "0 \<le> ev" "ev \<le> 1"
    by (auto simp: unit_float_def)
  have eu: "unit_float (Fin ev)" using Cons.prems(1) ev(1) by simp
  have u0: "0 \<le> u" "u \<le> 1" by (simp_all add: u)
  have k: "k \<le> 2 ^ 32" using Cons.prems(7) by simp
  define P where "P = (1 - u) ^ k"
  define Q where "Q = (1 + u) ^ k"
  have P: "0 \<le> P" "P \<le> 1" unfolding P_def using u0 by (simp_all add: power_le_one)
  have Q: "1 \<le> Q" unfolding Q_def using u0 by simp
  have "Q \<le> 1 + 2 powi (-20)" unfolding Q_def u by (rule pow_up[OF k])
  then have Q2: "Q \<le> 2" by simp
  have rk: "real k \<le> 2 ^ 32" using k by (metis of_nat_le_numeral_power_cancel_iff)
  have "Q * s \<le> 2 * real k"
    using mult_mono[OF Q2 Cons.prems(6)] Cons.prems(5) Q by simp
  then have "a \<le> 2 * 2 ^ 32" using Cons.prems(4) rk unfolding Q_def by linarith
  also have "2 * (2::real) ^ 32 = 2 powi 33" by simp
  also have "\<dots> \<le> 2 powi 1022" by (rule p2_mono) simp
  finally have a_hi: "a \<le> 2 powi 1022" .
  from dadd_step[OF Cons.prems(2) a_hi eu] obtain r1 where
    r1: "dadd (Fin a) (f2d (Fin ev)) = Fin r1" "r1 = 0 \<or> 2 powi (-149) \<le> r1"
      "\<bar>r1 - (a + ev)\<bar> \<le> u * (a + ev)"
    unfolding u by blast
  have d1: "(1 - u) * (a + ev) = (a + ev) - u * (a + ev)" by (simp add: algebra_simps)
  have d2: "(1 + u) * (a + ev) = (a + ev) + u * (a + ev)" by (simp add: algebra_simps)
  have lo1: "(1 - u) * (a + ev) \<le> r1" and hi1: "r1 \<le> (1 + u) * (a + ev)"
    using r1(3) unfolding d1 d2 by linarith+
  have "P * ev \<le> 1 * ev" using P(2) ev(2) by (rule mult_right_mono)
  then have "P * s + P * ev \<le> a + ev" using Cons.prems(3) unfolding P_def by linarith
  then have "(1 - u) * (P * s + P * ev) \<le> (1 - u) * (a + ev)"
    using u0 by (intro mult_left_mono) simp_all
  moreover have "(1 - u) ^ Suc k * (s + ev) = (1 - u) * (P * s + P * ev)"
    by (simp add: P_def algebra_simps)
  ultimately have lo: "(1 - u) ^ Suc k * (s + ev) \<le> r1" using lo1 by linarith
  have "1 * ev \<le> Q * ev" using Q ev(2) by (rule mult_right_mono)
  then have "a + ev \<le> Q * s + Q * ev" using Cons.prems(4) unfolding Q_def by linarith
  then have "(1 + u) * (a + ev) \<le> (1 + u) * (Q * s + Q * ev)"
    using u0 by (intro mult_left_mono) simp_all
  moreover have "(1 + u) ^ Suc k * (s + ev) = (1 + u) * (Q * s + Q * ev)"
    by (simp add: Q_def algebra_simps)
  ultimately have hi: "r1 \<le> (1 + u) ^ Suc k * (s + ev)" using hi1 by linarith
  have s': "0 \<le> s + ev" "s + ev \<le> real (Suc k)"
    using Cons.prems(5,6) ev(2,3) by simp_all
  have len': "Suc k + length es \<le> 2 ^ 32" using Cons.prems(7) by simp
  have es': "\<forall>e\<in>set es. unit_float e" using Cons.prems(1) by simp
  from Cons.IH[OF es' r1(2) lo hi s' len'] obtain r where
    r: "foldl (\<lambda>acc x. dadd acc (f2d x)) (Fin r1) es = Fin r"
      "(1 - u) ^ (Suc k + length es) * (s + ev + sum_list (map fval es)) \<le> r"
      "r \<le> (1 + u) ^ (Suc k + length es) * (s + ev + sum_list (map fval es))"
    by blast
  have f: "foldl (\<lambda>acc x. dadd acc (f2d x)) (Fin a) (e # es) = Fin r"
    unfolding ev(1) foldl_Cons r1(1) by (rule r(1))
  have e1: "k + length (e # es) = Suc k + length es" by simp
  have e2: "s + sum_list (map fval (e # es)) = s + ev + sum_list (map fval es)"
    by (simp add: ev(1))
  show ?case unfolding e1 e2 using f r(2,3) by blast
qed


section \<open>The sum of the class distribution\<close>

lemma sum_unit_bounds:
  assumes "\<forall>e\<in>set es. unit_float e"
  shows "0 \<le> sum_list (map fval es)" "sum_list (map fval es) \<le> real (length es)"
  using assms
proof (induction es)
  case Nil
  { case 1 show ?case by simp }
  { case 2 show ?case by simp }
next
  case (Cons e es)
  { case 1
    from 1 obtain ev where ev: "e = Fin ev" "0 \<le> ev" "ev \<le> 1" by (auto simp: unit_float_def)
    have "0 \<le> sum_list (map fval es)" using 1 by (intro Cons.IH(1)) simp
    then show ?case using ev by simp }
  { case 2
    from 2 obtain ev where ev: "e = Fin ev" "0 \<le> ev" "ev \<le> 1" by (auto simp: unit_float_def)
    have "sum_list (map fval es) \<le> real (length es)" using 2 by (intro Cons.IH(2)) simp
    then show ?case using ev by simp }
qed

lemma sum_unit_ge_1:
  assumes "\<forall>e\<in>set es. unit_float e" "Fin 1 \<in> set es"
  shows "1 \<le> sum_list (map fval es)"
  using assms
proof (induction es)
  case Nil
  then show ?case by simp
next
  case (Cons e es)
  from Cons.prems(1) obtain ev where ev: "e = Fin ev" "0 \<le> ev" "ev \<le> 1"
    by (auto simp: unit_float_def)
  have es: "\<forall>e\<in>set es. unit_float e" using Cons.prems(1) by simp
  show ?case
  proof (cases "e = Fin 1")
    case True
    then show ?thesis using sum_unit_bounds(1)[OF es] by simp
  next
    case False
    then have "Fin 1 \<in> set es" using Cons.prems(2) by auto
    from Cons.IH[OF es this] show ?thesis using ev by simp
  qed
qed

lemma outputs_sum_err:
  assumes "\<forall>e\<in>set es. unit_float e" "1 \<le> t"
  shows "\<bar>sum_list (map (\<lambda>e. fval (fdiv e (Fin t))) es) - sum_list (map fval es) / t\<bar>
         \<le> 2 powi (-24) * (sum_list (map fval es) / t) + real (length es) * 2 powi (-150)"
  using assms(1)
proof (induction es)
  case Nil
  then show ?case by simp
next
  case (Cons e es)
  from Cons.prems obtain ev where ev: "e = Fin ev" "0 \<le> ev" "ev \<le> 1"
    by (auto simp: unit_float_def)
  have es: "\<forall>e\<in>set es. unit_float e" using Cons.prems by simp
  define S where "S = sum_list (map fval es)"
  define Z where "Z = sum_list (map (\<lambda>e. fval (fdiv e (Fin t))) es)"
  define c :: real where "c = 2 powi (-24)"
  define h :: real where "h = 2 powi (-150)"
  have ih: "\<bar>Z - S / t\<bar> \<le> c * (S / t) + real (length es) * h"
    unfolding Z_def S_def c_def h_def by (rule Cons.IH[OF es])
  have q: "0 \<le> ev / t" "ev / t \<le> 1" using ev(2,3) assms(2) by simp_all
  from rnd32_abs[OF q] obtain r where r: "rnd32 (ev / t) = Fin r"
    "\<bar>r - ev / t\<bar> \<le> c * (ev / t) + h" unfolding c_def h_def by blast
  have fd: "fval (fdiv (Fin ev) (Fin t)) = r" using assms(2) r(1) by (simp add: fdiv_def)
  have d1: "(ev + S) / t = ev / t + S / t" by (simp add: add_divide_distrib)
  have d2: "c * (ev / t + S / t) = c * (ev / t) + c * (S / t)" by (simp add: algebra_simps)
  have d3: "real (length (Fin ev # es)) * h = h + real (length es) * h"
    by (simp add: algebra_simps)
  have "\<bar>(r + Z) - (ev / t + S / t)\<bar> \<le> c * (ev / t) + c * (S / t) + (h + real (length es) * h)"
    using ih r(2) by linarith
  then show ?case
    unfolding ev(1) list.map sum_list.Cons fval.simps
    unfolding fd S_def[symmetric] Z_def[symmetric] c_def[symmetric] h_def[symmetric] d1 d2 d3
    by linarith
qed


lemma softmax_es_sum:
  assumes es: "\<forall>e\<in>set es. unit_float e" and one: "Fin 1 \<in> set es"
    and len: "length es \<le> 2 ^ 32"
  shows "\<exists>t. d2f (foldl (\<lambda>acc x. dadd acc (f2d x)) (Fin 0) es) = Fin t \<and> 1 \<le> t
           \<and> \<bar>sum_list (map (\<lambda>e. fval (fdiv e (Fin t))) es) - 1\<bar> \<le> 1 / 100000"
proof -
  define n where "n = length es"
  define S where "S = sum_list (map fval es)"
  define u :: real where "u = 2 powi (-53)"
  have S1: "1 \<le> S" unfolding S_def by (rule sum_unit_ge_1[OF es one])
  have Sn: "S \<le> real n" unfolding S_def n_def by (rule sum_unit_bounds(2)[OF es])
  have rn: "real n \<le> 2 ^ 32"
    using len unfolding n_def by (metis of_nat_le_numeral_power_cancel_iff)
  have "\<exists>r. foldl (\<lambda>acc x. dadd acc (f2d x)) (Fin 0) es = Fin r
           \<and> (1 - u) ^ (0 + length es) * (0 + sum_list (map fval es)) \<le> r
           \<and> r \<le> (1 + u) ^ (0 + length es) * (0 + sum_list (map fval es))"
    using len by (intro accumulate_err[OF u_def es]) simp_all
  then obtain r where r: "foldl (\<lambda>acc x. dadd acc (f2d x)) (Fin 0) es = Fin r"
    "(1 - u) ^ n * S \<le> r" "r \<le> (1 + u) ^ n * S"
    unfolding n_def S_def by auto
  have "(1 - 1 / 2097152) * S \<le> (1 - u) ^ n * S"
    using pow_lo[OF len] S1 unfolding n_def u_def by (intro mult_right_mono) simp_all
  then have r_lo: "S - S / 2097152 \<le> r" using r(2) by (simp add: algebra_simps)
  have "(1 + u) ^ n * S \<le> (1 + 1 / 1048576) * S"
    using pow_up[OF len] S1 unfolding n_def u_def by (intro mult_right_mono) simp_all
  then have r_hi: "r \<le> S + S / 1048576" using r(3) by (simp add: algebra_simps)
  have "sum_ge 1 (Fin r)" using accumulate_ge_1[OF es one] unfolding r(1) .
  then have r1: "1 \<le> r" by (simp add: sum_ge_def)
  have "r \<le> 2 * 2 ^ 32" using r_hi Sn rn by simp
  also have "2 * (2::real) ^ 32 = 2 powi 33" by simp
  also have "\<dots> \<le> 2 powi 127" by (rule p2_mono) simp
  finally have r2: "r \<le> 2 powi 127" .
  have "(2::real) powi (-126) \<le> 2 powi 0" by (rule p2_mono) simp
  then have p1: "(2::real) powi (-126) \<le> 1" by simp
  have rep1: "representable 24 (-149) 1" by (rule representable_1) simp_all
  from rnd32_rel[OF rep1 p1 r1 r2] obtain t where
    t: "rnd32 r = Fin t" "\<bar>t - r\<bar> \<le> 2 powi (-24) * r" "1 \<le> t" by blast
  have tot: "d2f (foldl (\<lambda>acc x. dadd acc (f2d x)) (Fin 0) es) = Fin t"
    unfolding r(1) using t(1) by simp
  have t_err: "\<bar>t - r\<bar> \<le> r / 16777216" using t(2) by simp
  have t_hi: "t \<le> r + r / 16777216" and t_lo: "r - r / 16777216 \<le> t"
    using t_err by linarith+
  have lo: "t - t / 524288 \<le> S" using t_hi r_hi S1 by linarith
  have hi: "S \<le> t + t / 524288" using t_lo r_lo S1 by linarith
  define x where "x = S / t"
  have tpos: "0 < t" using t(3) by simp
  have x_lo: "1 - 1 / 524288 \<le> x"
    unfolding x_def using lo tpos by (simp add: pos_le_divide_eq algebra_simps)
  have x_hi: "x \<le> 1 + 1 / 524288"
    unfolding x_def using hi tpos by (simp add: pos_divide_le_eq algebra_simps)
  define Z where "Z = sum_list (map (\<lambda>e. fval (fdiv e (Fin t))) es)"
  have "\<bar>Z - x\<bar> \<le> 2 powi (-24) * x + real n * 2 powi (-150)"
    unfolding Z_def x_def S_def n_def by (rule outputs_sum_err[OF es t(3)])
  then have zx: "\<bar>Z - x\<bar> \<le> x / 16777216 + real n * 2 powi (-150)" by simp
  have "real n * 2 powi (-150) \<le> 2 ^ 32 * 2 powi (-150)"
    using rn by (intro mult_right_mono) simp_all
  also have "\<dots> \<le> 1 / 1000000" by simp
  finally have nh: "real n * 2 powi (-150) \<le> 1 / 1000000" .
  have "\<bar>Z - 1\<bar> \<le> 1 / 100000" using zx nh x_lo x_hi by linarith
  with tot t(3) show ?thesis unfolding Z_def by blast
qed


lemma softmax_dist_struct:
  assumes "vs \<noteq> []" "\<forall>v\<in>set vs. is_finite v"
  shows "\<exists>M es. vs ! max_element vs = Fin M
      \<and> (\<forall>j<length vs. fle (vs ! j) (Fin M))
      \<and> es = map (\<lambda>v. expf (fsub v (Fin M))) vs
      \<and> (\<forall>e\<in>set es. unit_float e) \<and> Fin 1 \<in> set es
      \<and> softmax_dist vs
          = map (\<lambda>e. fdiv e (d2f (foldl (\<lambda>acc x. dadd acc (f2d x)) (Fin 0) es))) es"
proof -
  define k where "k = max_element vs"
  have nn: "\<forall>v\<in>set vs. v \<noteq> NaN" using assms(2) by auto
  from max_element_spec[OF assms(1) nn]
  have k: "k < length vs" and mx: "\<forall>j<length vs. fle (vs ! j) (vs ! k)"
    by (simp_all add: k_def)
  have "is_finite (vs ! k)" using assms(2) k by simp
  then obtain M where M: "vs ! k = Fin M" by (cases "vs ! k") auto
  define es where "es = map (\<lambda>v. expf (fsub v (Fin M))) vs"
  have es_unit: "\<forall>e\<in>set es. unit_float e"
  proof
    fix e assume "e \<in> set es"
    then obtain v where v: "v \<in> set vs" "e = expf (fsub v (Fin M))" by (auto simp: es_def)
    then obtain j where j: "j < length vs" "v = vs ! j" by (auto simp: in_set_conv_nth)
    obtain a where a: "v = Fin a" using assms(2) v(1) by (cases v) auto
    have "fle (Fin a) (Fin M)" using mx j a M by auto
    then have "a \<le> M" by simp
    then show "unit_float e" unfolding v(2) a by (rule expf_fsub_unit)
  qed
  have "es ! k = Fin 1" using k M by (simp add: es_def expf_fsub_self)
  moreover have "k < length es" using k by (simp add: es_def)
  ultimately have one: "Fin 1 \<in> set es" by (metis nth_mem)
  have sd: "softmax_dist vs
      = map (\<lambda>e. fdiv e (d2f (foldl (\<lambda>acc x. dadd acc (f2d x)) (Fin 0) es))) es"
    by (simp add: softmax_dist_def Let_def es_def M flip: k_def)
  have mx': "\<forall>j<length vs. fle (vs ! j) (Fin M)" using mx M by simp
  show ?thesis using M mx' es_unit one sd unfolding k_def es_def by blast
qed

lemma softmax_dist_sum:
  assumes "vs \<noteq> []" "\<forall>v\<in>set vs. is_finite v" "length vs \<le> 2 ^ 32"
  shows "\<exists>M t. vs ! max_element vs = Fin M \<and> (\<forall>j<length vs. fle (vs ! j) (Fin M))
      \<and> softmax_dist vs = map (\<lambda>v. fdiv (expf (fsub v (Fin M))) (Fin t)) vs
      \<and> (\<forall>x\<in>set (softmax_dist vs). \<exists>s. x = Fin s \<and> 0 \<le> s \<and> s \<le> 1)
      \<and> \<bar>sum_list (map fval (softmax_dist vs)) - 1\<bar> \<le> 1 / 100000"
proof -
  from softmax_dist_struct[OF assms(1,2)] obtain M es where
    s: "vs ! max_element vs = Fin M" "\<forall>j<length vs. fle (vs ! j) (Fin M)"
      "es = map (\<lambda>v. expf (fsub v (Fin M))) vs"
      "\<forall>e\<in>set es. unit_float e" "Fin 1 \<in> set es"
      "softmax_dist vs
          = map (\<lambda>e. fdiv e (d2f (foldl (\<lambda>acc x. dadd acc (f2d x)) (Fin 0) es))) es"
    by blast
  have len: "length es \<le> 2 ^ 32" using assms(3) by (simp add: s(3))
  from softmax_es_sum[OF s(4,5) len] obtain t where
    t: "d2f (foldl (\<lambda>acc x. dadd acc (f2d x)) (Fin 0) es) = Fin t" "1 \<le> t"
      "\<bar>sum_list (map (\<lambda>e. fval (fdiv e (Fin t))) es) - 1\<bar> \<le> 1 / 100000"
    by blast
  have sd: "softmax_dist vs = map (\<lambda>e. fdiv e (Fin t)) es" unfolding s(6) t(1) ..
  have sd': "softmax_dist vs = map (\<lambda>v. fdiv (expf (fsub v (Fin M))) (Fin t)) vs"
    unfolding sd s(3) by (simp add: comp_def del: expf.simps)
  have sm: "sum_list (map fval (softmax_dist vs)) = sum_list (map (\<lambda>e. fval (fdiv e (Fin t))) es)"
    unfolding sd by (simp add: comp_def)
  have un: "\<forall>x\<in>set (softmax_dist vs). \<exists>s. x = Fin s \<and> 0 \<le> s \<and> s \<le> 1"
    using softmax_dist_unit[OF assms(1,2)] by (auto simp: unit_float_def)
  show ?thesis using s(1,2) sd' un t(3) unfolding sm by blast
qed

lemma softmax_dist_equal:
  assumes "vs \<noteq> []" "\<forall>v\<in>set vs. is_finite v" "length vs \<le> 2 ^ 32" "\<forall>v\<in>set vs. v = hd vs"
  shows "\<forall>x\<in>set (softmax_dist vs). x = fdiv (Fin 1) (i2f (length vs))"
proof -
  define n where "n = length vs"
  have n0: "0 < n" using assms(1) by (simp add: n_def)
  have "n \<le> 2 ^ 32" using assms(3) by (simp add: n_def)
  also have "(2::nat) ^ 32 < 2 ^ 53" by simp
  finally have n1: "n < 2 ^ 53" .
  have "is_finite (hd vs)" using assms(1,2) by simp
  then obtain a where a: "hd vs = Fin a" by (cases "hd vs") auto
  have "replicate (length vs) (Fin a) = vs"
    using assms(4) unfolding a by (intro replicate_length_same) simp
  then have vs: "vs = replicate n (Fin a)" by (simp add: n_def)
  have "softmax_dist vs = replicate n (fdiv (Fin 1) (rnd32 (real n)))"
    unfolding vs by (rule softmax_uniform[OF n0 n1])
  then show ?thesis by (simp add: i2f_def n_def)
qed


section \<open>A vector too long for the accumulator\<close>

lemma rnd64_p53: "rnd64 (2 ^ 53) = Fin (2 ^ 53)"
proof -
  have "representable 53 (-1074) (2 powi 53)" by (rule representable_p2) simp_all
  moreover have "\<bar>(2::real) powi 53\<bar> < 2 powi 1024"
    using p2_less[of 53 1024] by simp
  ultimately have "fround 53 (-1074) 1024 (2 powi 53) = Fin (2 powi 53)"
    by (intro fround_exact) simp_all
  then show ?thesis by (simp add: rnd64_def)
qed

lemma rnd64_stagnates: "rnd64 (2 ^ 53 + 1) = Fin (2 ^ 53)"
proof -
  define x :: real where "x = 2 ^ 53 + 1"
  have x: "0 < x" "2 powi 53 \<le> x" "x < 2 powi (53 + 1)" by (simp_all add: x_def)
  have fl: "\<lfloor>log 2 \<bar>x\<bar>\<rfloor> = 53" using floor_log2_eq[OF x] x(1) by simp
  have ue: "ulp_exp 53 (-1074) x = 1" by (simp add: ulp_exp_def fl)
  have "x / 2 powi 1 = 4503599627370496 + 1 / 2" by (simp add: x_def)
  then have "rne (x / 2 powi 1) = 4503599627370496"
    by (simp add: rne_def Let_def)
  then have "round_real 53 (-1074) x = 2 ^ 53"
    using x(1) by (simp add: round_real_def ue)
  moreover have "(2::real) ^ 53 < 2 powi 1024" using p2_less[of 53 1024] by simp
  ultimately have "fround 53 (-1074) 1024 x = Fin (2 ^ 53)"
    by (simp add: fround_def Let_def)
  then show ?thesis by (simp add: rnd64_def x_def)
qed

lemma accumulate_stagnates:
  "foldl (\<lambda>acc x. dadd acc (f2d x)) (Fin (2 ^ 53)) (replicate n (Fin 1)) = Fin (2 ^ 53)"
proof (induction n)
  case 0
  show ?case by simp
next
  case (Suc n)
  have "f2d (Fin 1) = Fin 1" by (rule f2d_unit) (simp add: unit_float_def representable_1)
  then have "dadd (Fin (2 ^ 53)) (f2d (Fin 1)) = rnd64 (2 ^ 53 + 1)"
    by (simp add: dadd_def)
  then have st: "dadd (Fin (2 ^ 53)) (f2d (Fin 1)) = Fin (2 ^ 53)"
    by (simp only: rnd64_stagnates)
  show ?case unfolding replicate_Suc foldl_Cons st by (rule Suc.IH)
qed

lemma accumulate_huge:
  "foldl (\<lambda>acc x. dadd acc (f2d x)) (Fin 0) (replicate (2 ^ 54) (Fin 1)) = Fin (2 ^ 53)"
proof -
  define m :: nat where "m = 2 ^ 53 - 1"
  have m: "real m = 2 ^ 53 - 1" "real (Suc m) = 2 ^ 53" by (simp_all add: m_def)
  have sp: "(2::nat) ^ 54 = m + Suc (2 ^ 53)" by (simp add: m_def)
  have "foldl (\<lambda>acc x. dadd acc (f2d x)) (Fin (real 0)) (replicate m (Fin 1))
        = Fin (real (0 + m))"
    by (rule accumulate_ones) (simp add: m_def)
  then have a1: "foldl (\<lambda>acc x. dadd acc (f2d x)) (Fin 0) (replicate m (Fin 1)) = Fin (real m)"
    by simp
  have "f2d (Fin 1) = Fin 1" by (rule f2d_unit) (simp add: unit_float_def representable_1)
  then have "dadd (Fin (real m)) (f2d (Fin 1)) = rnd64 (real m + 1)" by (simp add: dadd_def)
  also have "real m + 1 = 2 ^ 53" using m(1) by simp
  finally have a2: "dadd (Fin (real m)) (f2d (Fin 1)) = Fin (2 ^ 53)"
    by (simp only: rnd64_p53)
  show ?thesis
    unfolding sp replicate_add foldl_append a1 replicate_Suc foldl_Cons a2
    by (rule accumulate_stagnates)
qed

lemma softmax_dist_huge:
  "softmax_dist (replicate (2 ^ 54) (Fin 0)) = replicate (2 ^ 54) (Fin (1 / 2 ^ 53))"
proof -
  obtain n' :: nat where n': "(2::nat) ^ 54 = Suc n'" by (cases "(2::nat) ^ 54") simp_all
  have m: "replicate (2 ^ 54) (Fin 0) ! max_element (replicate (2 ^ 54) (Fin 0)) = Fin 0"
    unfolding n' by (simp add: max_element_def max_loop_same)
  have es: "map (\<lambda>v. expf (fsub v (Fin 0))) (replicate (2 ^ 54) (Fin 0))
            = replicate (2 ^ 54) (Fin 1)"
    by (simp add: expf_fsub_self del: expf.simps)
  have "representable 24 (-149) (2 powi 53)" by (rule representable_p2) simp_all
  moreover have "\<bar>(2::real) powi 53\<bar> < 2 powi 128" using p2_less[of 53 128] by simp
  ultimately have "fround 24 (-149) 128 (2 powi 53) = Fin (2 powi 53)"
    by (intro fround_exact) simp_all
  then have tot: "d2f (Fin (2 ^ 53)) = Fin (2 ^ 53)" by (simp add: rnd32_def)
  have "representable 24 (-149) (2 powi (-53))" by (rule representable_p2) simp_all
  moreover have "\<bar>(2::real) powi (-53)\<bar> < 2 powi 128" using p2_less[of "-53" 128] by simp
  ultimately have "fround 24 (-149) 128 (2 powi (-53)) = Fin (2 powi (-53))"
    by (intro fround_exact) simp_all
  then have q: "fdiv (Fin 1) (Fin (2 ^ 53)) = Fin (1 / 2 ^ 53)"
    by (simp add: fdiv_def rnd32_def)
  have "softmax_dist (replicate (2 ^ 54) (Fin 0))
        = map (\<lambda>v. fdiv v (Fin (2 ^ 53))) (replicate (2 ^ 54) (Fin 1))"
    unfolding softmax_dist_def Let_def m es accumulate_huge tot ..
  then show ?thesis unfolding map_replicate q .
qed


section \<open>The class distribution sums to one\<close>

lemma Softmax_two_zeros: "Softmax [Fin 0, Fin 0] = Inr [Fin (1 / 2), Fin (1 / 2)]"
proof -
  have r2: "rnd32 (real 2) = Fin (real 2)" by (rule rnd32_nat) simp
  have "representable 24 (-149) (2 powi (-1))" by (rule representable_p2) simp_all
  moreover have "\<bar>(2::real) powi (-1)\<bar> < 2 powi 128" using p2_less[of "-1" 128] by simp
  ultimately have "fround 24 (-149) 128 (2 powi (-1)) = Fin (2 powi (-1))"
    by (intro fround_exact) simp_all
  then have q: "fdiv (Fin 1) (rnd32 (real 2)) = Fin (1 / 2)"
    unfolding r2 by (simp add: fdiv_def rnd32_def)
  have "softmax_dist (replicate 2 (Fin 0)) = replicate 2 (fdiv (Fin 1) (rnd32 (real 2)))"
    by (rule softmax_uniform) simp_all
  then have "softmax_dist [Fin 0, Fin 0] = [Fin (1 / 2), Fin (1 / 2)]"
    unfolding q by (simp add: numeral_2_eq_2)
  then show ?thesis using Softmax_nonempty[of "[Fin 0, Fin 0]"] by simp
qed




end
